theory Spec2Isabelle
  imports Complex_Main "HOL-Library.Word"
begin

section \<open>JavaScript strings and the regular expressions of the classifier\<close>

text \<open>
  A JavaScript string is a sequence of UTF-16 code units; \<open>length\<close>, \<open>substring\<close> and the
  regular expressions of the QR service (none has the \<open>u\<close> flag) all count code units.
  The labels of the service are Chinese, so they are written as code-unit lists.
\<close>

type_synonym unit16 = "16 word"
type_synonym jsstring = "unit16 list"

definition js :: "string \<Rightarrow> jsstring" where
  \<comment> \<open>an ASCII literal of the source as a JavaScript string\<close>
  "js s = map (\<lambda>c. of_nat (of_char c)) s"

text \<open>
  A character class is a list of inclusive code-unit ranges, possibly negated.
  \<open>dot\<close> is \<open>.\<close> without the \<open>s\<close> flag: everything but the four line terminators.
  \<open>ws_ranges\<close> is \<open>\s\<close>: the ECMAScript white space and line terminator code units.
\<close>

datatype cclass = Cls bool "(unit16 \<times> unit16) list"

fun in_ranges :: "unit16 \<Rightarrow> (unit16 \<times> unit16) list \<Rightarrow> bool" where
  "in_ranges c [] = False"
| "in_ranges c ((lo, hi) # rs) = ((lo \<le> c \<and> c \<le> hi) \<or> in_ranges c rs)"

fun in_class :: "unit16 \<Rightarrow> cclass \<Rightarrow> bool" where
  "in_class c (Cls neg rs) = (neg \<noteq> in_ranges c rs)"

definition one :: "char \<Rightarrow> cclass" where
  "one ch = Cls False [(of_nat (of_char ch), of_nat (of_char ch))]"

definition dot :: cclass where
  "dot = Cls True [(0x000A, 0x000A), (0x000D, 0x000D), (0x2028, 0x2029)]"

definition ws_ranges :: "(unit16 \<times> unit16) list" where
  "ws_ranges = [(0x0009, 0x000D), (0x0020, 0x0020), (0x00A0, 0x00A0), (0x1680, 0x1680),
                (0x2000, 0x200A), (0x2028, 0x2029), (0x202F, 0x202F), (0x205F, 0x205F),
                (0x3000, 0x3000), (0xFEFF, 0xFEFF)]"

datatype regex =
    Zero
  | Eps
  | Atom cclass
  | Seq regex regex
  | Alt regex regex
  | Star regex

fun lit :: "string \<Rightarrow> regex" where
  "lit [] = Eps"
| "lit (c # cs) = Seq (Atom (one c)) (lit cs)"

definition Plus :: "regex \<Rightarrow> regex" where
  \<comment> \<open>\<open>r+\<close>\<close>
  "Plus r = Seq r (Star r)"

definition Opt :: "regex \<Rightarrow> regex" where
  \<comment> \<open>\<open>r?\<close>\<close>
  "Opt r = Alt r Eps"

fun AtLeast :: "nat \<Rightarrow> regex \<Rightarrow> regex" where
  \<comment> \<open>\<open>r{n,}\<close>\<close>
  "AtLeast 0 r = Star r"
| "AtLeast (Suc n) r = Seq r (AtLeast n r)"

text \<open>Matching by derivatives; \<open>seq\<close> and \<open>alt\<close> drop the empty language as they go.\<close>

fun nullable :: "regex \<Rightarrow> bool" where
  "nullable Zero = False"
| "nullable Eps = True"
| "nullable (Atom _) = False"
| "nullable (Seq r s) = (nullable r \<and> nullable s)"
| "nullable (Alt r s) = (nullable r \<or> nullable s)"
| "nullable (Star _) = True"

fun seq :: "regex \<Rightarrow> regex \<Rightarrow> regex" where
  "seq Zero _ = Zero"
| "seq Eps s = s"
| "seq r s = Seq r s"

fun alt :: "regex \<Rightarrow> regex \<Rightarrow> regex" where
  "alt Zero s = s"
| "alt r Zero = r"
| "alt r s = Alt r s"

fun deriv :: "unit16 \<Rightarrow> regex \<Rightarrow> regex" where
  "deriv c Zero = Zero"
| "deriv c Eps = Zero"
| "deriv c (Atom cl) = (if in_class c cl then Eps else Zero)"
| "deriv c (Seq r s) =
     (if nullable r then alt (seq (deriv c r) s) (deriv c s) else seq (deriv c r) s)"
| "deriv c (Alt r s) = alt (deriv c r) (deriv c s)"
| "deriv c (Star r) = seq (deriv c r) (Star r)"

fun full_match :: "regex \<Rightarrow> jsstring \<Rightarrow> bool" where
  \<comment> \<open>\<open>/^r$/.test(s)\<close>: the whole string matches\<close>
  "full_match r [] = nullable r"
| "full_match r (c # cs) = full_match (deriv c r) cs"

fun prefix_match :: "regex \<Rightarrow> jsstring \<Rightarrow> bool" where
  \<comment> \<open>\<open>/^r/.test(s)\<close>: some prefix of the string matches\<close>
  "prefix_match r [] = nullable r"
| "prefix_match r (c # cs) = (nullable r \<or> prefix_match (deriv c r) cs)"

text \<open>
  The language of an expression; the last section proves that \<open>full_match\<close> and
  \<open>prefix_match\<close> decide membership in it.
\<close>

fun lang :: "regex \<Rightarrow> jsstring set" where
  "lang Zero = {}"
| "lang Eps = {[]}"
| "lang (Atom cl) = {[c] | c. in_class c cl}"
| "lang (Seq r s) = {u @ v | u v. u \<in> lang r \<and> v \<in> lang s}"
| "lang (Alt r s) = lang r \<union> lang s"
| "lang (Star r) = {concat us | us. set us \<subseteq> lang r}"

section \<open>The payload classifier\<close>

text \<open>The regular expressions of \<open>detectQRType\<close> and \<open>validateQRData\<close>, in source order.\<close>

definition phone_class :: cclass where
  \<comment> \<open>\<open>[0-9\-\s()]\<close>\<close>
  "phone_class = Cls False ([(0x0030, 0x0039), (0x002D, 0x002D)] @ ws_ranges @
                            [(0x0028, 0x0028), (0x0029, 0x0029)])"

definition not_at :: cclass where
  \<comment> \<open>\<open>[^@]\<close>\<close>
  "not_at = Cls True [(0x0040, 0x0040)]"

definition re_url :: regex where
  \<comment> \<open>\<open>/^https?:\/\/.+/\<close>\<close>
  "re_url = Seq (lit ''http'') (Seq (Opt (lit ''s'')) (Seq (lit ''://'') (Plus (Atom dot))))"

definition re_mailto :: regex where
  \<comment> \<open>\<open>/^mailto:.+@.+\..+/\<close>\<close>
  "re_mailto = Seq (lit ''mailto:'') (Seq (Plus (Atom dot)) (Seq (lit ''@'')
                 (Seq (Plus (Atom dot)) (Seq (lit ''.'') (Plus (Atom dot))))))"

definition re_email :: regex where
  \<comment> \<open>\<open>/^[^@]+@[^@]+\.[^@]+$/\<close>\<close>
  "re_email = Seq (Plus (Atom not_at)) (Seq (lit ''@'')
                (Seq (Plus (Atom not_at)) (Seq (lit ''.'') (Plus (Atom not_at)))))"

definition re_tel :: regex where
  \<comment> \<open>\<open>/^tel:[+]?[0-9\-\s()]+/\<close>\<close>
  "re_tel = Seq (lit ''tel:'') (Seq (Opt (lit ''+'')) (Plus (Atom phone_class)))"

definition re_phone :: regex where
  \<comment> \<open>\<open>/^[+]?[0-9\-\s()]{7,}$/\<close>\<close>
  "re_phone = Seq (Opt (lit ''+'')) (AtLeast 7 (Atom phone_class))"

definition re_sms :: regex where
  \<comment> \<open>\<open>/^sms:[+]?[0-9\-\s()]+/\<close>\<close>
  "re_sms = Seq (lit ''sms:'') (Seq (Opt (lit ''+'')) (Plus (Atom phone_class)))"

definition re_wifi :: regex where
  \<comment> \<open>\<open>/^WIFI:/\<close>\<close>
  "re_wifi = lit ''WIFI:''"

definition re_vcard :: regex where
  \<comment> \<open>\<open>/^BEGIN:VCARD/\<close>\<close>
  "re_vcard = lit ''BEGIN:VCARD''"

definition is_url :: "jsstring \<Rightarrow> bool" where
  "is_url d = prefix_match re_url d"

definition is_email :: "jsstring \<Rightarrow> bool" where
  "is_email d = (prefix_match re_mailto d \<or> full_match re_email d)"

definition is_phone :: "jsstring \<Rightarrow> bool" where
  "is_phone d = (prefix_match re_tel d \<or> full_match re_phone d)"

definition is_sms :: "jsstring \<Rightarrow> bool" where
  "is_sms d = prefix_match re_sms d"

definition is_wifi :: "jsstring \<Rightarrow> bool" where
  "is_wifi d = prefix_match re_wifi d"

definition is_vcard :: "jsstring \<Rightarrow> bool" where
  "is_vcard d = prefix_match re_vcard d"

text \<open>
  \<open>detectQRType\<close>: \<open>!data\<close> holds of a string exactly when it is empty; the type is
  the string the source returns.
\<close>

definition detectQRType :: "jsstring \<Rightarrow> jsstring" where
  "detectQRType d =
     (if d = [] then js ''unknown''
      else if is_url d then js ''URL''
      else if is_email d then js ''EMAIL''
      else if is_phone d then js ''PHONE''
      else if is_sms d then js ''SMS''
      else if is_wifi d then js ''WIFI''
      else if is_vcard d then js ''VCARD''
      else js ''TEXT'')"

text \<open>The labels of the source, as code units.\<close>

definition lbl_url :: jsstring where
  "lbl_url = [0x7F51, 0x5740, 0x94FE, 0x63A5]"

definition lbl_email :: jsstring where
  "lbl_email = [0x7535, 0x5B50, 0x90AE, 0x7BB1]"

definition lbl_phone :: jsstring where
  "lbl_phone = [0x7535, 0x8BDD, 0x53F7, 0x7801]"

definition lbl_sms :: jsstring where
  "lbl_sms = [0x77ED, 0x4FE1]"

definition lbl_wifi :: jsstring where
  "lbl_wifi = js ''WiFi '' @ [0x914D, 0x7F6E]"

definition lbl_vcard :: jsstring where
  "lbl_vcard = [0x8054, 0x7CFB, 0x4EBA, 0x4FE1, 0x606F]"

definition lbl_text :: jsstring where
  "lbl_text = [0x6587, 0x672C]"

definition lbl_text_content :: jsstring where
  "lbl_text_content = [0x6587, 0x672C, 0x5185, 0x5BB9]"

definition lbl_empty_data :: jsstring where
  \<comment> \<open>"empty data"\<close>
  "lbl_empty_data = [0x7A7A, 0x6570, 0x636E]"

definition lbl_failed :: jsstring where
  \<comment> \<open>"recognition failed"\<close>
  "lbl_failed = [0x8BC6, 0x522B, 0x5931, 0x8D25]"

definition ellipsis :: jsstring where
  "ellipsis = js ''...''"

definition truncate30 :: "jsstring \<Rightarrow> jsstring" where
  \<comment> \<open>\<open>data.substring(0, 30) + (data.length > 30 ? '...' : '')\<close>\<close>
  "truncate30 d = take 30 d @ (if length d > 30 then ellipsis else [])"

definition generateDescription :: "jsstring \<Rightarrow> jsstring \<Rightarrow> jsstring" where
  "generateDescription d ty =
     (if d = [] then lbl_failed
      else if ty = js ''URL'' then lbl_url @ js '': '' @ truncate30 d
      else if ty = js ''EMAIL'' then lbl_email @ js '': '' @ d
      else if ty = js ''PHONE'' then lbl_phone @ js '': '' @ d
      else if ty = js ''SMS'' then lbl_sms @ js '': '' @ d
      else if ty = js ''WIFI'' then lbl_wifi
      else if ty = js ''VCARD'' then lbl_vcard
      else if ty = js ''TEXT'' then lbl_text @ js '': '' @ truncate30 d
      else truncate30 d)"

record validation =
  isValid :: bool
  vtype :: jsstring
  vdescription :: jsstring

definition validateQRData :: "jsstring \<Rightarrow> validation" where
  "validateQRData d =
     (if d = [] then \<lparr>isValid = False, vtype = js ''UNKNOWN'', vdescription = lbl_empty_data\<rparr>
      else if is_url d then \<lparr>isValid = True, vtype = js ''URL'', vdescription = lbl_url\<rparr>
      else if is_email d then \<lparr>isValid = True, vtype = js ''EMAIL'', vdescription = lbl_email\<rparr>
      else if is_phone d then \<lparr>isValid = True, vtype = js ''PHONE'', vdescription = lbl_phone\<rparr>
      else if is_sms d then \<lparr>isValid = True, vtype = js ''SMS'', vdescription = lbl_sms\<rparr>
      else if is_wifi d then \<lparr>isValid = True, vtype = js ''WIFI'', vdescription = lbl_wifi\<rparr>
      else if is_vcard d then \<lparr>isValid = True, vtype = js ''VCARD'', vdescription = lbl_vcard\<rparr>
      else \<lparr>isValid = True, vtype = js ''TEXT'', vdescription = lbl_text_content\<rparr>)"

section \<open>Typed arrays, ImageData and the image transforms\<close>

text \<open>
  A \<open>Uint8ClampedArray\<close> is an object on the heap; the heap is the list of the arrays
  allocated so far and an address is an index into it, so a fresh array never aliases
  an older one. An \<open>ImageData\<close> holds the address of its array.
  A JavaScript number is a rational, or \<open>None\<close> for \<open>NaN\<close>: every number the transforms
  compute is a small multiple of one half, which a double represents exactly.
\<close>

type_synonym byte = "8 word"
type_synonym heap = "byte list list"
type_synonym jsnum = "rat option"

datatype error = Error jsstring | DOMException

record ImageData =
  data :: nat
  width :: nat
  height :: nat

definition wf_image :: "heap \<Rightarrow> ImageData \<Rightarrow> bool" where
  \<comment> \<open>what the browser guarantees of every \<open>ImageData\<close> object\<close>
  "wf_image h img = (data img < length h \<and> 0 < width img \<and> 0 < height img \<and>
                     length (h ! data img) = 4 * width img * height img)"

definition rd :: "byte list \<Rightarrow> nat \<Rightarrow> jsnum" where
  \<comment> \<open>\<open>a[i]\<close>: \<open>undefined\<close> out of range, which arithmetic turns into \<open>NaN\<close>\<close>
  "rd a i = (if i < length a then Some (of_nat (unat (a ! i))) else None)"

definition round_half_even :: "rat \<Rightarrow> int" where
  "round_half_even q =
     (let f = \<lfloor>q\<rfloor> in
      if q < of_int f + 1 / 2 then f
      else if of_int f + 1 / 2 < q then f + 1
      else if even f then f else f + 1)"

definition ToUint8Clamp :: "jsnum \<Rightarrow> byte" where
  \<comment> \<open>the conversion of a store into a \<open>Uint8ClampedArray\<close>\<close>
  "ToUint8Clamp v =
     (case v of None \<Rightarrow> 0 | Some q \<Rightarrow> word_of_int (round_half_even (min 255 (max 0 q))))"

definition wr :: "byte list \<Rightarrow> nat \<Rightarrow> jsnum \<Rightarrow> byte list" where
  \<comment> \<open>\<open>a[i] = v\<close>: a store out of range is ignored, as \<open>list_update\<close> does\<close>
  "wr a i v = a[i := ToUint8Clamp v]"

definition clamp255 :: "jsnum \<Rightarrow> jsnum" where
  \<comment> \<open>\<open>Math.min(255, Math.max(0, v))\<close>\<close>
  "clamp255 v = map_option (\<lambda>q. min 255 (max 0 q)) v"

definition contrast :: "jsnum \<Rightarrow> jsnum" where
  \<comment> \<open>\<open>(v - 128) * factor + 128\<close> with \<open>factor = 1.5\<close>\<close>
  "contrast v = map_option (\<lambda>q. (q - 128) * (3 / 2) + 128) v"

definition brighten :: "int \<Rightarrow> jsnum \<Rightarrow> jsnum" where
  \<comment> \<open>\<open>v + brightness\<close>\<close>
  "brighten b v = map_option (\<lambda>q. q + of_int b) v"

definition alloc :: "heap \<Rightarrow> byte list \<Rightarrow> heap \<times> nat" where
  \<comment> \<open>\<open>new Uint8ClampedArray(src)\<close>: a fresh array holding a copy\<close>
  "alloc h xs = (h @ [xs], length h)"

definition new_ImageData :: "heap \<Rightarrow> nat \<Rightarrow> nat \<Rightarrow> nat \<Rightarrow> error + ImageData" where
  \<comment> \<open>\<open>new ImageData(data, w, h)\<close> throws unless the array has \<open>4 * w * h\<close> samples\<close>
  "new_ImageData h a w ht =
     (if w = 0 \<or> ht = 0 \<or> length (h ! a) \<noteq> 4 * w * ht then Inl DOMException
      else Inr \<lparr>data = a, width = w, height = ht\<rparr>)"

function enhanceContrast_loop :: "nat \<Rightarrow> byte list \<Rightarrow> byte list" where
  "enhanceContrast_loop i d =
     (if i < length d then
        (let d1 = wr d i (clamp255 (contrast (rd d i)));
             d2 = wr d1 (i + 1) (clamp255 (contrast (rd d1 (i + 1))));
             d3 = wr d2 (i + 2) (clamp255 (contrast (rd d2 (i + 2))))
         in enhanceContrast_loop (i + 4) d3)
      else d)"
  by pat_completeness auto
termination
  by (relation "measure (\<lambda>(i, d). length d - i)") (auto simp: wr_def)

definition enhanceContrast :: "heap \<Rightarrow> ImageData \<Rightarrow> heap \<times> (error + ImageData)" where
  "enhanceContrast h imageData =
     (let (h1, a) = alloc h (h ! data imageData);
          h2 = h1[a := enhanceContrast_loop 0 (h1 ! a)]
      in (h2, new_ImageData h2 a (width imageData) (height imageData)))"

function adjustBrightness_loop :: "int \<Rightarrow> nat \<Rightarrow> byte list \<Rightarrow> byte list" where
  "adjustBrightness_loop b i d =
     (if i < length d then
        (let d1 = wr d i (clamp255 (brighten b (rd d i)));
             d2 = wr d1 (i + 1) (clamp255 (brighten b (rd d1 (i + 1))));
             d3 = wr d2 (i + 2) (clamp255 (brighten b (rd d2 (i + 2))))
         in adjustBrightness_loop b (i + 4) d3)
      else d)"
  by pat_completeness auto
termination
  by (relation "measure (\<lambda>(b, i, d). length d - i)") (auto simp: wr_def)

definition adjustBrightness :: "heap \<Rightarrow> ImageData \<Rightarrow> int \<Rightarrow> heap \<times> (error + ImageData)" where
  "adjustBrightness h imageData brightness =
     (let (h1, a) = alloc h (h ! data imageData);
          h2 = h1[a := adjustBrightness_loop brightness 0 (h1 ! a)]
      in (h2, new_ImageData h2 a (width imageData) (height imageData)))"

text \<open>
  \<open>sharpenImage\<close> reads \<open>imageData.data\<close> and writes \<open>data\<close>, two arrays: its loops run on
  the heap, reading the array at \<open>s\<close> and storing into the array at \<open>a\<close>.
  The loops start at 1, so no index below is negative.
\<close>

definition kernel :: "int list" where
  "kernel = [0, -1, 0, -1, 5, -1, 0, -1, 0]"

definition sharpen_tap ::
  "byte list \<Rightarrow> nat \<Rightarrow> nat \<Rightarrow> nat \<Rightarrow> nat \<Rightarrow> int \<Rightarrow> int \<Rightarrow> jsnum \<Rightarrow> jsnum" where
  \<comment> \<open>\<open>sum += imageData.data[idx] * kernel[(ky + 1) * 3 + (kx + 1)]\<close>\<close>
  "sharpen_tap src w x y c ky kx acc =
     (let idx = nat (((int y + ky) * int w + (int x + kx)) * 4 + int c)
      in case (acc, rd src idx) of
           (Some s, Some v) \<Rightarrow> Some (s + v * of_int (kernel ! nat ((ky + 1) * 3 + (kx + 1))))
         | _ \<Rightarrow> None)"

definition sharpen_sum :: "byte list \<Rightarrow> nat \<Rightarrow> nat \<Rightarrow> nat \<Rightarrow> nat \<Rightarrow> jsnum" where
  "sharpen_sum src w x y c =
     fold (\<lambda>ky acc. fold (\<lambda>kx acc. sharpen_tap src w x y c ky kx acc) [-1, 0, 1] acc)
          [-1, 0, 1] (Some 0)"

definition sharpen_channel :: "nat \<Rightarrow> nat \<Rightarrow> nat \<Rightarrow> nat \<Rightarrow> nat \<Rightarrow> nat \<Rightarrow> heap \<Rightarrow> heap" where
  "sharpen_channel s a w y x c h =
     (let acc = sharpen_sum (h ! s) w x y c;
          idx = (y * w + x) * 4 + c
      in h[a := wr (h ! a) idx (clamp255 acc)])"

definition sharpen_loops :: "nat \<Rightarrow> nat \<Rightarrow> nat \<Rightarrow> nat \<Rightarrow> heap \<Rightarrow> heap" where
  "sharpen_loops s a w ht h =
     fold (\<lambda>y. fold (\<lambda>x. fold (\<lambda>c. sharpen_channel s a w y x c) [0..<3]) [1..<w - 1])
          [1..<ht - 1] h"

definition sharpenImage :: "heap \<Rightarrow> ImageData \<Rightarrow> heap \<times> (error + ImageData)" where
  "sharpenImage h imageData =
     (let (h1, a) = alloc h (h ! data imageData);
          h2 = sharpen_loops (data imageData) a (width imageData) (height imageData) h1
      in (h2, new_ImageData h2 a (width imageData) (height imageData)))"

section \<open>The decode primitive, the canvas and the strategies of one region\<close>

text \<open>
  \<open>jsQR\<close> is the opaque decode primitive: any function from a pixel buffer, its
  dimensions and the inversion option to a code or \<open>null\<close>. A canvas is its pixels;
  \<open>getImageData(0, 0, width, height)\<close> copies them into a fresh array and throws on an empty
  canvas. Rescaling is the browser's \<open>drawImage\<close> and is a parameter too; \<open>None\<close> is the
  \<open>null\<close> that \<open>scaleImage\<close> returns when it fails.
  The world is the heap and the log of the calls of the decode primitive, so that the
  order of the attempts and the attempts that are skipped can be observed.
\<close>

datatype inversion = dontInvert | attemptBoth

record QRCode =
  code_data :: jsstring
  topLeftCorner :: "rat \<times> rat"
  topRightCorner :: "rat \<times> rat"
  bottomLeftCorner :: "rat \<times> rat"

type_synonym buffer = "byte list \<times> nat \<times> nat"
type_synonym decoder = "buffer \<Rightarrow> inversion \<Rightarrow> QRCode option"

record canvas =
  cwidth :: nat
  cheight :: nat
  pixels :: "byte list"

type_synonym scaler = "canvas \<Rightarrow> rat \<Rightarrow> buffer option"

definition wf_canvas :: "canvas \<Rightarrow> bool" where
  "wf_canvas cv = (0 < cwidth cv \<and> 0 < cheight cv \<and>
                   length (pixels cv) = 4 * cwidth cv * cheight cv)"

record world =
  heap :: heap
  calls :: "(buffer \<times> inversion) list"

type_synonym 'a io = "world \<Rightarrow> world \<times> (error + 'a)"

definition ret :: "'a \<Rightarrow> 'a io" where
  "ret v = (\<lambda>w. (w, Inr v))"

definition bind :: "'a io \<Rightarrow> ('a \<Rightarrow> 'b io) \<Rightarrow> 'b io" where
  \<comment> \<open>sequencing: an exception of the first statement skips the rest\<close>
  "bind m f = (\<lambda>w. case m w of (w1, Inl e) \<Rightarrow> (w1, Inl e) | (w1, Inr v) \<Rightarrow> f v w1)"

definition on_heap :: "(heap \<Rightarrow> heap \<times> (error + 'a)) \<Rightarrow> 'a io" where
  "on_heap f = (\<lambda>w. case f (heap w) of (h1, r) \<Rightarrow> (w\<lparr>heap := h1\<rparr>, r))"

definition buffer_of :: "heap \<Rightarrow> ImageData \<Rightarrow> buffer" where
  \<comment> \<open>the arguments \<open>img.data, img.width, img.height\<close> of a call of \<open>jsQR\<close>\<close>
  "buffer_of h img = (h ! data img, width img, height img)"

definition jsQR :: "decoder \<Rightarrow> ImageData \<Rightarrow> inversion \<Rightarrow> QRCode option io" where
  "jsQR dec img opt =
     (\<lambda>w. (w\<lparr>calls := calls w @ [(buffer_of (heap w) img, opt)]\<rparr>,
           Inr (dec (buffer_of (heap w) img) opt)))"

definition getImageData :: "canvas \<Rightarrow> ImageData io" where
  \<comment> \<open>\<open>ctx.getImageData(0, 0, canvas.width, canvas.height)\<close>\<close>
  "getImageData cv =
     on_heap (\<lambda>h. if cwidth cv = 0 \<or> cheight cv = 0 then (h, Inl DOMException)
                   else (case alloc h (pixels cv) of
                           (h1, a) \<Rightarrow> (h1, Inr \<lparr>data = a, width = cwidth cv, height = cheight cv\<rparr>)))"

definition scaleImage :: "scaler \<Rightarrow> canvas \<Rightarrow> rat \<Rightarrow> ImageData option io" where
  \<comment> \<open>the \<open>try\<close> of \<open>scaleImage\<close> turns every failure into \<open>null\<close>\<close>
  "scaleImage scl cv scale =
     on_heap (\<lambda>h. case scl cv scale of
                     None \<Rightarrow> (h, Inr None)
                   | Some (px, w, ht) \<Rightarrow>
                       (case alloc h px of
                          (h1, a) \<Rightarrow> (h1, Inr (Some \<lparr>data = a, width = w, height = ht\<rparr>))))"

fun try_scales :: "decoder \<Rightarrow> scaler \<Rightarrow> canvas \<Rightarrow> rat list \<Rightarrow> jsstring option io" where
  \<comment> \<open>\<open>for (const scale of scales)\<close>, then \<open>return null\<close>\<close>
  "try_scales dec scl cv [] = ret None"
| "try_scales dec scl cv (scale # rest) =
     bind (scaleImage scl cv scale) (\<lambda>scaledImageData.
       case scaledImageData of
         None \<Rightarrow> try_scales dec scl cv rest
       | Some img \<Rightarrow>
           bind (jsQR dec img attemptBoth) (\<lambda>code.
             case code of
               Some c \<Rightarrow> ret (Some (code_data c))
             | None \<Rightarrow> try_scales dec scl cv rest))"

definition scales :: "rat list" where
  "scales = [1 / 2, 3 / 4, 5 / 4, 3 / 2, 2]"

definition tryMultipleRecognitionStrategies ::
  "decoder \<Rightarrow> scaler \<Rightarrow> canvas \<Rightarrow> jsstring option io" where
  "tryMultipleRecognitionStrategies dec scl cv =
     bind (getImageData cv) (\<lambda>originalImageData.
     bind (jsQR dec originalImageData attemptBoth) (\<lambda>code.
       case code of Some c \<Rightarrow> ret (Some (code_data c)) | None \<Rightarrow>
     bind (on_heap (\<lambda>h. enhanceContrast h originalImageData)) (\<lambda>enhancedImageData.
     bind (jsQR dec enhancedImageData attemptBoth) (\<lambda>code.
       case code of Some c \<Rightarrow> ret (Some (code_data c)) | None \<Rightarrow>
     bind (on_heap (\<lambda>h. adjustBrightness h originalImageData 30)) (\<lambda>brightenedImageData.
     bind (jsQR dec brightenedImageData attemptBoth) (\<lambda>code.
       case code of Some c \<Rightarrow> ret (Some (code_data c)) | None \<Rightarrow>
     bind (on_heap (\<lambda>h. adjustBrightness h originalImageData (- 30))) (\<lambda>darkenedImageData.
     bind (jsQR dec darkenedImageData attemptBoth) (\<lambda>code.
       case code of Some c \<Rightarrow> ret (Some (code_data c)) | None \<Rightarrow>
     bind (on_heap (\<lambda>h. sharpenImage h originalImageData)) (\<lambda>sharpenedImageData.
     bind (jsQR dec sharpenedImageData attemptBoth) (\<lambda>code.
       case code of Some c \<Rightarrow> ret (Some (code_data c)) | None \<Rightarrow>
     try_scales dec scl cv scales))))))))))"

text \<open>
  What the claim about the strategies says, in its own words: the candidate buffers in
  order, each decoded with both polarities until the first success.
  \<open>px_of\<close> is the content of the buffer a transform returns for a buffer \<open>b\<close>.
\<close>

definition px_of :: "(heap \<Rightarrow> ImageData \<Rightarrow> heap \<times> (error + ImageData)) \<Rightarrow> buffer \<Rightarrow> buffer" where
  "px_of f b =
     (case b of (px, w, ht) \<Rightarrow>
        (case f [px] \<lparr>data = 0, width = w, height = ht\<rparr> of
           (h1, Inr out) \<Rightarrow> buffer_of h1 out
         | (h1, Inl e) \<Rightarrow> b))"

definition candidates :: "scaler \<Rightarrow> canvas \<Rightarrow> buffer list" where
  "candidates scl cv =
     (let orig = (pixels cv, cwidth cv, cheight cv) in
      [orig,
       px_of enhanceContrast orig,
       px_of (\<lambda>h img. adjustBrightness h img 30) orig,
       px_of (\<lambda>h img. adjustBrightness h img (- 30)) orig,
       px_of sharpenImage orig]
      @ List.map_filter (scl cv) [1 / 2, 3 / 4, 5 / 4, 3 / 2, 2])"

fun first_success :: "decoder \<Rightarrow> buffer list \<Rightarrow> (buffer \<times> inversion) list \<times> jsstring option" where
  "first_success dec [] = ([], None)"
| "first_success dec (b # bs) =
     (case dec b attemptBoth of
        Some c \<Rightarrow> ([(b, attemptBoth)], Some (code_data c))
      | None \<Rightarrow> (case first_success dec bs of (l, r) \<Rightarrow> ((b, attemptBoth) # l, r)))"

section \<open>Results and deduplication\<close>

record position =
  pos_x :: rat
  pos_y :: rat
  pos_width :: rat
  pos_height :: rat

record QRResult =
  serialNumber :: jsstring
  qrType :: jsstring
  qrDescription :: jsstring
  confidence :: rat
  processingTime :: int
  position :: "position option"

record MultiQRResult =
  results :: "QRResult list"
  totalFound :: nat
  totalProcessingTime :: int

text \<open>
  The position key is the template string \<open>`${Math.round(x)}_${Math.round(y)}`\<close>.
  \<open>Math.round\<close> rounds halves up; an integer below \<open>10^21\<close> prints in decimal, which
  covers every pixel coordinate.
\<close>

definition Math_round :: "rat \<Rightarrow> int" where
  "Math_round q = \<lfloor>q + 1 / 2\<rfloor>"

function digits10 :: "nat \<Rightarrow> jsstring" where
  "digits10 n = (if n < 10 then [of_nat (48 + n)]
                 else digits10 (n div 10) @ [of_nat (48 + n mod 10)])"
  by pat_completeness auto
termination
  by (relation "measure id") auto

definition num_to_string :: "int \<Rightarrow> jsstring" where
  "num_to_string i = (if i < 0 then js ''-'' @ digits10 (nat (- i)) else digits10 (nat i))"

definition position_key :: "position \<Rightarrow> jsstring" where
  "position_key p =
     num_to_string (Math_round (pos_x p)) @ js ''_'' @ num_to_string (Math_round (pos_y p))"

definition positionKey :: "QRResult \<Rightarrow> jsstring" where
  \<comment> \<open>\<open>result.position ? `...` : contentKey\<close>\<close>
  "positionKey r = (case position r of Some p \<Rightarrow> position_key p | None \<Rightarrow> serialNumber r)"

definition accepts :: "QRResult list \<Rightarrow> jsstring set \<Rightarrow> QRResult \<Rightarrow> bool" where
  \<comment> \<open>\<open>!results.some(r => r.serialNumber === contentKey) && !foundPositions.has(positionKey)\<close>\<close>
  "accepts rs foundPositions r =
     (\<not> list_ex (\<lambda>r'. serialNumber r' = serialNumber r) rs \<and> positionKey r \<notin> foundPositions)"

fun addUniqueResults ::
  "QRResult list \<Rightarrow> QRResult list \<Rightarrow> jsstring set \<Rightarrow> QRResult list \<times> jsstring set" where
  "addUniqueResults rs [] foundPositions = (rs, foundPositions)"
| "addUniqueResults rs (r # newResults) foundPositions =
     (if accepts rs foundPositions r
      then addUniqueResults (rs @ [r]) newResults
             (insert (serialNumber r) (insert (positionKey r) foundPositions))
      else addUniqueResults rs newResults foundPositions)"

section \<open>The two entry points\<close>

text \<open>
  Time is a logical clock in milliseconds: \<open>Date.now()\<close> is the time at which the
  statement runs, and every awaited operation comes with the time it takes.
  The three scans of the multi-code path, the loading of an image and \<open>QrScanner.scanImage\<close>
  are taken by their outcomes, which are arbitrary: the scans catch every exception of
  their own and so always yield a list.
\<close>

datatype image = DataUrl jsstring | Canvas canvas

record env =
  loadImage :: "jsstring \<Rightarrow> canvas option \<times> nat"
  scanImage :: "image \<Rightarrow> error + jsstring"
  decoder :: decoder
  scaler :: scaler
  fast_ms :: nat
  full_ms :: nat
  quickFullImageScan :: "canvas \<Rightarrow> QRResult list \<times> nat"
  smartRegionScan :: "canvas \<Rightarrow> jsstring set \<Rightarrow> QRResult list \<times> nat"
  optimizedSlidingWindow :: "canvas \<Rightarrow> jsstring set \<Rightarrow> QRResult list \<times> nat"

record service =
  isInitialized :: bool

definition msg_init_failed :: jsstring where
  "msg_init_failed = [0x4E8C, 0x7EF4, 0x7801, 0x8BC6, 0x522B, 0x5F15, 0x64CE, 0x521D, 0x59CB,
                      0x5316, 0x5931, 0x8D25]"

definition msg_load_failed :: jsstring where
  "msg_load_failed = [0x56FE, 0x7247, 0x52A0, 0x8F7D, 0x5931, 0x8D25]"

definition msg_not_detected :: jsstring where
  "msg_not_detected = [0x672A, 0x68C0, 0x6D4B, 0x5230, 0x4E8C, 0x7EF4, 0x7801]"


definition msg_multi_timeout :: jsstring where
  \<comment> \<open>the message of the timer of \<open>recognizeMultipleQRCodes\<close>\<close>
  "msg_multi_timeout = [0x8BC6, 0x522B, 0x8D85, 0x65F6]"




definition QrScanner_hasCamera :: "error + unit" where
  \<comment> \<open>an \<open>async\<close> function of the library: the call yields a promise and cannot throw\<close>
  "QrScanner_hasCamera = Inr ()"

definition initialize :: "service \<Rightarrow> error + service" where
  "initialize svc =
     (if isInitialized svc then Inr svc
      else case QrScanner_hasCamera of
             Inr _ \<Rightarrow> Inr (svc\<lparr>isInitialized := True\<rparr>)
           | Inl _ \<Rightarrow> Inl (Error msg_init_failed))"

definition race :: "int \<Rightarrow> int \<Rightarrow> jsstring \<Rightarrow> int \<times> (error + 'a) \<Rightarrow> int \<times> (error + 'a)" where
  \<comment> \<open>\<open>Promise.race\<close> of a promise that settles at \<open>tdone\<close> with a timer started at \<open>t0\<close>
      that rejects; the promise comes first in the array and wins a tie\<close>
  "race t0 timeout_ms msg p =
     (case p of (tdone, v) \<Rightarrow>
        if tdone \<le> t0 + timeout_ms then (tdone, v) else (t0 + timeout_ms, Inl (Error msg)))"

definition createCanvasFromImageData :: "env \<Rightarrow> jsstring \<Rightarrow> (error + canvas) \<times> nat" where
  "createCanvasFromImageData e s =
     (case loadImage e s of
        (None, d) \<Rightarrow> (Inl (Error msg_load_failed), d)
      | (Some cv, d) \<Rightarrow> (Inr cv, d))"

text \<open>
  \<open>performOptimizedRecognition\<close> yields the snapshots of its \<open>results\<close> array: at its
  start and after each of the three merges, each with the time it was taken. The promise
  settles with the last one.
\<close>

definition performOptimizedRecognition ::
  "env \<Rightarrow> canvas \<Rightarrow> int \<Rightarrow> int \<Rightarrow> (int \<times> QRResult list) list" where
  "performOptimizedRecognition e cv startTime now =
     (case quickFullImageScan e cv of (fullImageResult, d1) \<Rightarrow>
      case addUniqueResults [] fullImageResult {} of (results1, found1) \<Rightarrow>
      let now1 = now + int d1 in
      case (if now1 - startTime < 1000
            then (case smartRegionScan e cv found1 of (regionResults, d2) \<Rightarrow>
                    (case addUniqueResults results1 regionResults found1 of
                       (rs, fp) \<Rightarrow> (rs, fp, now1 + int d2)))
            else (results1, found1, now1)) of (results2, found2, now2) \<Rightarrow>
      case (if now2 - startTime < 1500
            then (case optimizedSlidingWindow e cv found2 of (slidingResults, d3) \<Rightarrow>
                    (case addUniqueResults results2 slidingResults found2 of
                       (rs, fp) \<Rightarrow> (rs, fp, now2 + int d3)))
            else (results2, found2, now2)) of (results3, found3, now3) \<Rightarrow>
      [(now, []), (now1, results1), (now2, results2), (now3, results3)])"


definition recognizeMultipleQRCodes ::
  "env \<Rightarrow> service \<Rightarrow> image \<Rightarrow> int \<Rightarrow> service \<times> (error + MultiQRResult)" where
  "recognizeMultipleQRCodes e svc imageData now =
     (case initialize svc of
        Inl err \<Rightarrow> (svc, Inl err)
      | Inr svc1 \<Rightarrow>
          let startTime = now;
              attempt =
                (case (case imageData of
                         DataUrl s \<Rightarrow> createCanvasFromImageData e s
                       | Canvas cv \<Rightarrow> (Inr cv, 0)) of
                   (Inl err, d) \<Rightarrow> (now + int d, Inl err)
                 | (Inr cv, d) \<Rightarrow>
                     race (now + int d) 2000 msg_multi_timeout
                       (case last (performOptimizedRecognition e cv startTime (now + int d)) of
                          (tdone, rs) \<Rightarrow> (tdone, Inr rs)))
          in (svc1, Inr (case attempt of
                (tend, Inr rs) \<Rightarrow>
                  \<lparr>results = rs, totalFound = length rs, totalProcessingTime = tend - startTime\<rparr>
              | (tend, Inl err) \<Rightarrow>
                  \<lparr>results = [], totalFound = 0, totalProcessingTime = tend - startTime\<rparr>)))"













section \<open>The classifier as the specification words it\<close>

text \<open>
  The rules in evaluation order, the first match winning, \<open>TEXT\<close> for a non-empty input
  that matches none, \<open>UNKNOWN\<close> for the empty input.
\<close>

definition rules :: "(jsstring \<times> (jsstring \<Rightarrow> bool)) list" where
  "rules = [(js ''URL'', is_url), (js ''EMAIL'', is_email), (js ''PHONE'', is_phone),
            (js ''SMS'', is_sms), (js ''WIFI'', is_wifi), (js ''VCARD'', is_vcard)]"

definition classify_spec :: "jsstring \<Rightarrow> jsstring" where
  "classify_spec d =
     (if d = [] then js ''UNKNOWN''
      else case find (\<lambda>(t, p). p d) rules of Some (t, p) \<Rightarrow> t | None \<Rightarrow> js ''TEXT'')"

definition vcard_two_lines :: jsstring where
  \<comment> \<open>\<open>"BEGIN:VCARD\nEND:VCARD"\<close>\<close>
  "vcard_two_lines = js ''BEGIN:VCARD'' @ [0x000A] @ js ''END:VCARD''"

section \<open>Sample inputs\<close>

definition sample_A :: QRResult where
  "sample_A = \<lparr>serialNumber = js ''A'', qrType = js ''TEXT'',
                qrDescription = lbl_text @ js '': A'', confidence = 1, processingTime = 0,
                position = Some \<lparr>pos_x = 21 / 2, pos_y = 4, pos_width = 10, pos_height = 10\<rparr>\<rparr>"

definition sample_B :: QRResult where
  \<comment> \<open>a different payload at the rounded position of \<open>sample_A\<close>\<close>
  "sample_B = \<lparr>serialNumber = js ''B'', qrType = js ''TEXT'',
                qrDescription = lbl_text @ js '': B'', confidence = 1, processingTime = 0,
                position = Some \<lparr>pos_x = 54 / 5, pos_y = 4, pos_width = 10, pos_height = 10\<rparr>\<rparr>"

definition sample_C :: QRResult where
  "sample_C = \<lparr>serialNumber = js ''C'', qrType = js ''TEXT'',
                qrDescription = lbl_text @ js '': C'', confidence = 1, processingTime = 0,
                position = Some \<lparr>pos_x = 100, pos_y = 40, pos_width = 10, pos_height = 10\<rparr>\<rparr>"

definition sample_canvas :: canvas where
  "sample_canvas = \<lparr>cwidth = 1, cheight = 1, pixels = [129, 131, 0, 7]\<rparr>"

definition no_code :: decoder where
  "no_code = (\<lambda>b opt. None)"

definition no_scale :: scaler where
  "no_scale = (\<lambda>cv scale. None)"


definition quick_env :: env where
  \<comment> \<open>every pass within its budget\<close>
  "quick_env = \<lparr>loadImage = (\<lambda>s. (None, 50)), scanImage = (\<lambda>i. Inl (Error msg_not_detected)),
                decoder = no_code, scaler = no_scale, fast_ms = 100, full_ms = 100,
                quickFullImageScan = (\<lambda>cv. ([sample_A], 100)),
                smartRegionScan = (\<lambda>cv fp. ([sample_B, sample_A, sample_C], 300)),
                optimizedSlidingWindow = (\<lambda>cv fp. ([sample_C], 200))\<rparr>"

definition bright_only :: decoder where
  \<comment> \<open>a decoder that reads a code only in the brightened buffer of \<open>sample_canvas\<close>\<close>
  "bright_only = (\<lambda>b opt. case b of (px, w, ht) \<Rightarrow>
      if px ! 0 = 159 then Some \<lparr>code_data = js ''hi'', topLeftCorner = (0, 0),
                                  topRightCorner = (1, 0), bottomLeftCorner = (0, 1)\<rparr>
      else None)"

section \<open>Proof devices for the transforms\<close>

text \<open>
  The loops of \<open>enhanceContrast\<close> and \<open>adjustBrightness\<close> have one shape, \<open>rgb_loop\<close>,
  with the channel function as a parameter. \<open>sharpen_pure\<close> is the loop nest of
  \<open>sharpenImage\<close> on the contents of the two arrays, \<open>pix\<close> the index of a sample,
  \<open>sample\<close> its value, and \<open>keeps_frame\<close> says that a transform returns a fresh buffer of
  the same dimensions and length with the alpha samples of the input, and leaves every
  array that existed before as it was.
\<close>

definition store_of :: "(jsnum \<Rightarrow> jsnum) \<Rightarrow> byte list \<Rightarrow> nat \<Rightarrow> byte" where
  "store_of f d j = ToUint8Clamp (clamp255 (f (rd d j)))"

function rgb_loop :: "(jsnum \<Rightarrow> jsnum) \<Rightarrow> nat \<Rightarrow> byte list \<Rightarrow> byte list" where
  "rgb_loop f i d =
     (if i < length d then
        (let d1 = wr d i (clamp255 (f (rd d i)));
             d2 = wr d1 (i + 1) (clamp255 (f (rd d1 (i + 1))));
             d3 = wr d2 (i + 2) (clamp255 (f (rd d2 (i + 2))))
         in rgb_loop f (i + 4) d3)
      else d)"
  by pat_completeness auto
termination
  by (relation "measure (\<lambda>(f, i, d). length d - i)") (auto simp: wr_def)

definition pix :: "nat \<Rightarrow> nat \<Rightarrow> nat \<Rightarrow> nat \<Rightarrow> nat" where
  "pix w y x c = (y * w + x) * 4 + c"

definition sharpen_store :: "byte list \<Rightarrow> nat \<Rightarrow> nat \<Rightarrow> nat \<Rightarrow> nat \<Rightarrow> byte" where
  "sharpen_store src w y x c = ToUint8Clamp (clamp255 (sharpen_sum src w x y c))"

definition sharpen_pure :: "byte list \<Rightarrow> nat \<Rightarrow> nat \<Rightarrow> byte list \<Rightarrow> byte list" where
  "sharpen_pure src w ht dst =
     fold (\<lambda>y. fold (\<lambda>x. fold (\<lambda>c d. d[pix w y x c := sharpen_store src w y x c]) [0..<3])
                       [1..<w - 1])
          [1..<ht - 1] dst"

definition triples :: "nat \<Rightarrow> nat \<Rightarrow> (nat \<times> nat \<times> nat) list" where
  "triples w ht = List.product [1..<ht - 1] (List.product [1..<w - 1] [0..<3])"

definition sample :: "byte list \<Rightarrow> nat \<Rightarrow> nat \<Rightarrow> nat \<Rightarrow> nat \<Rightarrow> int" where
  "sample px w x y c = int (unat (px ! ((y * w + x) * 4 + c)))"

definition keeps_frame :: "heap \<Rightarrow> ImageData \<Rightarrow> heap \<times> (error + ImageData) \<Rightarrow> bool" where
  "keeps_frame h img res =
     (case res of
        (h1, Inr out) \<Rightarrow>
          width out = width img \<and> height out = height img \<and>
          data out < length h1 \<and> data out \<noteq> data img \<and>
          length (h1 ! data out) = length (h ! data img) \<and>
          list_all (\<lambda>p. h1 ! data out ! (4 * p + 3) = h ! data img ! (4 * p + 3))
            [0..<width img * height img] \<and>
          take (length h) h1 = h
      | (h1, Inl e) \<Rightarrow> False)"

definition sample_heap :: heap where
  "sample_heap = [[129, 131, 0, 7]]"

definition sample_image :: ImageData where
  "sample_image = \<lparr>data = 0, width = 1, height = 1\<rparr>"

definition sample_heap3 :: heap where
  "sample_heap3 = [[10, 0, 0, 255, 20, 0, 0, 255, 30, 0, 0, 255,
                    40, 0, 0, 255, 50, 7, 200, 255, 60, 0, 0, 255,
                    70, 0, 0, 255, 80, 0, 0, 255, 90, 0, 0, 255]]"

definition sample_image3 :: ImageData where
  "sample_image3 = \<lparr>data = 0, width = 3, height = 3\<rparr>"

section \<open>Verification: the classifier\<close>

lemma classify_url: "vtype (validateQRData (js ''https://example.com/a'')) = js ''URL''"
  by code_simp

lemma classify_email: "vtype (validateQRData (js ''test@example.com'')) = js ''EMAIL''"
  by code_simp

lemma classify_phone: "vtype (validateQRData (js ''+1-555-1234567'')) = js ''PHONE''"
  by code_simp

lemma classify_sms: "vtype (validateQRData (js ''sms:+15551234567'')) = js ''SMS''"
  by code_simp

lemma classify_wifi: "vtype (validateQRData (js ''WIFI:T:WPA;S:net;;'')) = js ''WIFI''"
  by code_simp

lemma classify_vcard: "vtype (validateQRData vcard_two_lines) = js ''VCARD''"
  by code_simp

lemma classify_text: "vtype (validateQRData (js ''hello world'')) = js ''TEXT''"
  by code_simp

lemma classify_empty:
  "validateQRData [] = \<lparr>isValid = False, vtype = js ''UNKNOWN'', vdescription = lbl_empty_data\<rparr>"
  by (simp add: validateQRData_def)

lemma validate_refines: "vtype (validateQRData d) = classify_spec d"
  by (simp add: validateQRData_def classify_spec_def rules_def)

lemma detect_refines:
  "detectQRType d = (if d = [] then js ''unknown'' else classify_spec d)"
  by (simp add: detectQRType_def classify_spec_def rules_def)

text \<open>
  Claim C4. The classifier \<open>validateQRData\<close> maps the eight literal inputs of the
  specification to URL, EMAIL, PHONE, SMS, WIFI, VCARD, TEXT and, for the empty string,
  to UNKNOWN with the description "empty data"; for every input its type is the one of
  the first matching rule in the order URL, EMAIL, PHONE, SMS, WIFI, VCARD, with TEXT
  for a non-empty input that matches none. \<open>detectQRType\<close> evaluates the same rules in
  the same order on every non-empty input, and answers \<open>'unknown'\<close> on the empty one.
\<close>

theorem classifier_literals_and_order:
  "vtype (validateQRData (js ''https://example.com/a'')) = js ''URL'' \<and>
   vtype (validateQRData (js ''test@example.com'')) = js ''EMAIL'' \<and>
   vtype (validateQRData (js ''+1-555-1234567'')) = js ''PHONE'' \<and>
   vtype (validateQRData (js ''sms:+15551234567'')) = js ''SMS'' \<and>
   vtype (validateQRData (js ''WIFI:T:WPA;S:net;;'')) = js ''WIFI'' \<and>
   vtype (validateQRData vcard_two_lines) = js ''VCARD'' \<and>
   vtype (validateQRData (js ''hello world'')) = js ''TEXT'' \<and>
   validateQRData [] =
     \<lparr>isValid = False, vtype = js ''UNKNOWN'', vdescription = lbl_empty_data\<rparr> \<and>
   vtype (validateQRData d) = classify_spec d \<and>
   detectQRType d = (if d = [] then js ''unknown'' else classify_spec d)"
  by (intro conjI classify_url classify_email classify_phone classify_sms classify_wifi
      classify_vcard classify_text classify_empty validate_refines detect_refines)

lemma detect_nonempty: "detectQRType d = js ''URL'' \<or> detectQRType d = js ''TEXT'' \<Longrightarrow> d \<noteq> []"
  by (auto simp: detectQRType_def js_def)

text \<open>
  Claim C5. For every payload that \<open>detectQRType\<close> classifies as URL or TEXT, the
  description is the label, a colon and a space, the first 30 code units of the payload
  and then the ellipsis \<open>...\<close> exactly when the payload is longer than 30: a payload of
  31 code units gives its first 30 and the ellipsis, a payload of 30 gives all of it and
  no ellipsis.
\<close>

theorem description_truncation:
  assumes "detectQRType d = js ''URL'' \<or> detectQRType d = js ''TEXT''"
  shows "generateDescription d (detectQRType d) =
           (if detectQRType d = js ''URL'' then lbl_url else lbl_text) @ js '': '' @
           take 30 d @ (if 30 < length d then js ''...'' else [])"
proof -
  have ne: "d \<noteq> []"
    using assms by (rule detect_nonempty)
  show ?thesis
    using assms ne
    by (auto simp: generateDescription_def truncate30_def ellipsis_def js_def)
qed

theorem description_truncation_witness:
  "detectQRType (js ''https://example.com/0123456789a'') = js ''URL'' \<and>
   length (js ''https://example.com/0123456789a'') = 31 \<and>
   generateDescription (js ''https://example.com/0123456789a'')
       (detectQRType (js ''https://example.com/0123456789a'')) =
     lbl_url @ js '': https://example.com/0123456789...'' \<and>
   detectQRType (js ''abcdefghijklmnopqrstuvwxyz0123'') = js ''TEXT'' \<and>
   length (js ''abcdefghijklmnopqrstuvwxyz0123'') = 30 \<and>
   generateDescription (js ''abcdefghijklmnopqrstuvwxyz0123'')
       (detectQRType (js ''abcdefghijklmnopqrstuvwxyz0123'')) =
     lbl_text @ js '': abcdefghijklmnopqrstuvwxyz0123''"
proof -
  have u: "detectQRType (js ''https://example.com/0123456789a'') = js ''URL''"
    by code_simp
  have t: "detectQRType (js ''abcdefghijklmnopqrstuvwxyz0123'') = js ''TEXT''"
    by code_simp
  have du: "generateDescription (js ''https://example.com/0123456789a'')
       (detectQRType (js ''https://example.com/0123456789a'')) =
     lbl_url @ js '': https://example.com/0123456789...''"
    using description_truncation [of "js ''https://example.com/0123456789a''"] u
    by (simp add: js_def)
  have dt: "generateDescription (js ''abcdefghijklmnopqrstuvwxyz0123'')
       (detectQRType (js ''abcdefghijklmnopqrstuvwxyz0123'')) =
     lbl_text @ js '': abcdefghijklmnopqrstuvwxyz0123''"
    using description_truncation [of "js ''abcdefghijklmnopqrstuvwxyz0123''"] t
    by (simp add: js_def)
  show ?thesis
    using u t du dt by (simp add: js_def)
qed

section \<open>Verification: deduplication\<close>

lemma accepts_iff:
  "accepts rs fp r \<longleftrightarrow>
     (\<forall>r'\<in>set rs. serialNumber r' \<noteq> serialNumber r) \<and> positionKey r \<notin> fp"
  by (auto simp: accepts_def list_ex_iff)

lemma addUniqueResults_single:
  "addUniqueResults rs [r] fp =
     (if (\<forall>r'\<in>set rs. serialNumber r' \<noteq> serialNumber r) \<and> positionKey r \<notin> fp
      then (rs @ [r], insert (serialNumber r) (insert (positionKey r) fp))
      else (rs, fp))"
  by (simp add: accepts_iff)

lemma addUniqueResults_step:
  "addUniqueResults rs (r # new) fp =
     (case addUniqueResults rs [r] fp of (rs1, fp1) \<Rightarrow> addUniqueResults rs1 new fp1)"
  by simp

lemma addUniqueResults_distinct:
  "distinct (map serialNumber rs) \<Longrightarrow>
   distinct (map serialNumber (fst (addUniqueResults rs new fp)))"
proof (induction new arbitrary: rs fp)
  case Nil
  then show ?case by simp
next
  case (Cons r new)
  show ?case
  proof (cases "accepts rs fp r")
    case True
    then have "distinct (map serialNumber (rs @ [r]))"
      using Cons.prems by (auto simp: accepts_iff)
    then show ?thesis
      using True Cons.IH by simp
  next
    case False
    then show ?thesis
      using Cons by simp
  qed
qed

lemma addUniqueResults_distinct_pair:
  "addUniqueResults rs new fp = (rs1, fp1) \<Longrightarrow> distinct (map serialNumber rs) \<Longrightarrow>
   distinct (map serialNumber rs1)"
  using addUniqueResults_distinct [of rs new fp] by simp

lemma gated_merge_distinct:
  assumes "(if c then (case scan fp of (new, d) \<Rightarrow>
                 (case addUniqueResults rs new fp of (rs1, fp1) \<Rightarrow> (rs1, fp1, n + int d)))
            else (rs, fp, n)) = (rs', fp', n')"
    and "distinct (map serialNumber rs)"
  shows "distinct (map serialNumber rs')"
  using assms by (auto split: if_splits prod.splits dest: addUniqueResults_distinct_pair)

lemma snapshots_distinct:
  assumes "(t, res) \<in> set (performOptimizedRecognition e cv st now)"
  shows "distinct (map serialNumber res)"
proof -
  obtain full d1 where q: "quickFullImageScan e cv = (full, d1)"
    by (cases "quickFullImageScan e cv")
  obtain r1 f1 where a1: "addUniqueResults [] full {} = (r1, f1)"
    by (cases "addUniqueResults [] full {}")
  have d1: "distinct (map serialNumber r1)"
    using addUniqueResults_distinct_pair [OF a1] by simp
  let ?S2 = "(if now + int d1 - st < 1000
            then (case smartRegionScan e cv f1 of (regionResults, d2) \<Rightarrow>
                    (case addUniqueResults r1 regionResults f1 of
                       (rs, fp) \<Rightarrow> (rs, fp, now + int d1 + int d2)))
            else (r1, f1, now + int d1))"
  obtain r2 f2 n2 where e2: "?S2 = (r2, f2, n2)"
    by (cases ?S2)
  have d2: "distinct (map serialNumber r2)"
    using gated_merge_distinct [where scan = "smartRegionScan e cv", OF e2 d1] .
  let ?S3 = "(if n2 - st < 1500
            then (case optimizedSlidingWindow e cv f2 of (slidingResults, d3) \<Rightarrow>
                    (case addUniqueResults r2 slidingResults f2 of
                       (rs, fp) \<Rightarrow> (rs, fp, n2 + int d3)))
            else (r2, f2, n2))"
  obtain r3 f3 n3 where e3: "?S3 = (r3, f3, n3)"
    by (cases ?S3)
  have d3: "distinct (map serialNumber r3)"
    using gated_merge_distinct [where scan = "optimizedSlidingWindow e cv", OF e3 d2] .
  have "performOptimizedRecognition e cv st now =
          [(now, []), (now + int d1, r1), (n2, r2), (n3, r3)]"
    by (simp only: performOptimizedRecognition_def Let_def q a1 e2 e3 prod.case)
  then show ?thesis
    using assms d1 d2 d3 by auto
qed

text \<open>
  Claim C6. \<open>addUniqueResults\<close> handles a batch one candidate at a time; a candidate is
  accepted exactly when its payload differs from the payload of every result accepted so
  far and its position key is not in the set of seen keys, and then its payload and its
  position key both join that set; a list with pairwise distinct payloads keeps them
  distinct through any batch, so the results of \<open>performOptimizedRecognition\<close> have
  pairwise distinct payloads after the full-frame, the grid and the sliding-window merge,
  whatever the three scans return.
\<close>

theorem dedup_accepts_and_keeps_payloads_distinct:
  "addUniqueResults rs [r] fp =
     (if (\<forall>r'\<in>set rs. serialNumber r' \<noteq> serialNumber r) \<and> positionKey r \<notin> fp
      then (rs @ [r], insert (serialNumber r) (insert (positionKey r) fp))
      else (rs, fp)) \<and>
   addUniqueResults rs (r # new) fp =
     (case addUniqueResults rs [r] fp of (rs1, fp1) \<Rightarrow> addUniqueResults rs1 new fp1) \<and>
   (distinct (map serialNumber rs) \<longrightarrow>
      distinct (map serialNumber (fst (addUniqueResults rs new fp)))) \<and>
   (\<forall>(t, res) \<in> set (performOptimizedRecognition e cv st now).
      distinct (map serialNumber res))"
  using addUniqueResults_single [of rs r fp] addUniqueResults_step [of rs r new fp]
    addUniqueResults_distinct [of rs new fp] snapshots_distinct [of _ _ e cv st now]
  by blast

theorem dedup_accepts_and_keeps_payloads_distinct_witness:
  "serialNumber sample_A \<noteq> serialNumber sample_C \<and>
   positionKey sample_C \<notin> {js ''A'', js ''11_4''} \<and>
   addUniqueResults [sample_A] [sample_C] {js ''A'', js ''11_4''} =
     ([sample_A, sample_C], {js ''C'', js ''100_40'', js ''A'', js ''11_4''}) \<and>
   distinct (map serialNumber [sample_A]) \<and>
   fst (addUniqueResults [sample_A] [sample_B, sample_A, sample_C] {js ''A'', js ''11_4''}) =
     [sample_A, sample_C] \<and>
   distinct (map serialNumber
     (fst (addUniqueResults [sample_A] [sample_B, sample_A, sample_C] {js ''A'', js ''11_4''}))) \<and>
   (1400, [sample_A, sample_C]) \<in> set (performOptimizedRecognition quick_env sample_canvas 1000 1000) \<and>
   distinct (map serialNumber [sample_A, sample_C])"
proof -
  note T = dedup_accepts_and_keeps_payloads_distinct
      [of "[sample_A]" sample_C "{js ''A'', js ''11_4''}" "[sample_B, sample_A, sample_C]"
          quick_env sample_canvas 1000 1000]
  have k: "positionKey sample_C = js ''100_40''"
    by code_simp
  have n: "serialNumber sample_A = js ''A''" "serialNumber sample_C = js ''C''"
    by (simp_all add: sample_A_def sample_C_def)
  have c: "(\<forall>r'\<in>set [sample_A]. serialNumber r' \<noteq> serialNumber sample_C) \<and>
           positionKey sample_C \<notin> {js ''A'', js ''11_4''}"
    by (simp add: k n js_def)
  have d: "distinct (map serialNumber [sample_A])"
    by simp
  have e: "fst (addUniqueResults [sample_A] [sample_B, sample_A, sample_C] {js ''A'', js ''11_4''}) =
             [sample_A, sample_C]"
    by code_simp
  have s: "(1400, [sample_A, sample_C]) \<in>
             set (performOptimizedRecognition quick_env sample_canvas 1000 1000)"
    by code_simp
  have a: "addUniqueResults [sample_A] [sample_C] {js ''A'', js ''11_4''} =
     ([sample_A, sample_C], {js ''C'', js ''100_40'', js ''A'', js ''11_4''})"
    using T c by (simp add: k n)
  have d2: "distinct (map serialNumber
     (fst (addUniqueResults [sample_A] [sample_B, sample_A, sample_C] {js ''A'', js ''11_4''})))"
    using T d by blast
  have d3: "distinct (map serialNumber [sample_A, sample_C])"
    using T s by blast
  have c1: "serialNumber sample_A \<noteq> serialNumber sample_C"
    using c by simp
  show ?thesis
    using c c1 a d e d2 s d3 by blast
qed

section \<open>Verification: the entry points\<close>

lemma initialize_ok: "initialize svc = Inr (svc\<lparr>isInitialized := True\<rparr>)"
  by (cases svc) (simp add: initialize_def QrScanner_hasCamera_def)






lemma multi_unfold:
  assumes "(case imageData of DataUrl s \<Rightarrow> createCanvasFromImageData e s
            | Canvas c \<Rightarrow> (Inr c, 0)) = (Inr cv, d)"
  shows "recognizeMultipleQRCodes e svc imageData now =
     (svc\<lparr>isInitialized := True\<rparr>,
      Inr (case race (now + int d) 2000 msg_multi_timeout
                  (case last (performOptimizedRecognition e cv now (now + int d)) of
                     (tdone, rs) \<Rightarrow> (tdone, Inr rs)) of
             (tend, Inr rs) \<Rightarrow>
               \<lparr>results = rs, totalFound = length rs, totalProcessingTime = tend - now\<rparr>
           | (tend, Inl err) \<Rightarrow>
               \<lparr>results = [], totalFound = 0, totalProcessingTime = tend - now\<rparr>))"
  using assms by (simp add: recognizeMultipleQRCodes_def initialize_ok Let_def)


lemma multi_in_time_returns_all:
  assumes "(case imageData of DataUrl s \<Rightarrow> createCanvasFromImageData e s
            | Canvas c \<Rightarrow> (Inr c, 0)) = (Inr cv, d)"
    and "last (performOptimizedRecognition e cv now (now + int d)) = (tdone, rs)"
    and "tdone \<le> now + int d + 2000"
  shows "recognizeMultipleQRCodes e svc imageData now =
           (svc\<lparr>isInitialized := True\<rparr>,
            Inr \<lparr>results = rs, totalFound = length rs, totalProcessingTime = tdone - now\<rparr>)"
  using assms(3) by (simp add: multi_unfold [OF assms(1)] assms(2) race_def)












section \<open>Verification: the image transforms\<close>

declare rgb_loop.simps [simp del]

declare enhanceContrast_loop.simps [simp del]

declare adjustBrightness_loop.simps [simp del]

lemma enhanceContrast_loop_rgb: "enhanceContrast_loop i d = rgb_loop contrast i d"
proof (induction i d rule: enhanceContrast_loop.induct)
  case (1 i d)
  show ?case
    using 1 by (subst enhanceContrast_loop.simps, subst rgb_loop.simps) (simp add: Let_def)
qed

lemma adjustBrightness_loop_rgb: "adjustBrightness_loop b i d = rgb_loop (brighten b) i d"
proof (induction b i d rule: adjustBrightness_loop.induct)
  case (1 b i d)
  show ?case
    using 1 by (subst adjustBrightness_loop.simps, subst rgb_loop.simps) (simp add: Let_def)
qed

lemma rd_update_other: "k \<noteq> i \<Longrightarrow> rd (d[i := x]) k = rd d k"
  by (simp add: rd_def)

lemma rgb_loop_length: "length (rgb_loop f i d) = length d"
proof (induction f i d rule: rgb_loop.induct)
  case (1 f i d)
  show ?case
    using 1 by (subst rgb_loop.simps) (simp add: Let_def wr_def)
qed

lemma rgb_loop_nth:
  "j < length d \<Longrightarrow>
   rgb_loop f i d ! j = (if i \<le> j \<and> (j - i) mod 4 \<noteq> 3 then store_of f d j else d ! j)"
proof (induction f i d arbitrary: j rule: rgb_loop.induct)
  case (1 f i d)
  show ?case
  proof (cases "i < length d")
    case False
    then show ?thesis
      using 1(2) by (subst rgb_loop.simps) simp
  next
    case True
    define d3 where "d3 = d[i := store_of f d i, i + 1 := store_of f d (i + 1),
                            i + 2 := store_of f d (i + 2)]"
    have len: "length d3 = length d"
      by (simp add: d3_def)
    have d3eq: "wr (wr (wr d i (clamp255 (f (rd d i)))) (i + 1)
                    (clamp255 (f (rd (wr d i (clamp255 (f (rd d i)))) (i + 1))))) (i + 2)
                 (clamp255 (f (rd (wr (wr d i (clamp255 (f (rd d i)))) (i + 1)
                    (clamp255 (f (rd (wr d i (clamp255 (f (rd d i)))) (i + 1))))) (i + 2)))) = d3"
      by (simp add: wr_def store_of_def d3_def rd_update_other)
    have body: "rgb_loop f i d = rgb_loop f (i + 4) d3"
      using True by (subst rgb_loop.simps) (simp only: Let_def d3eq if_True)
    have jl: "j < length d3"
      using 1(2) len by simp
    have ih: "rgb_loop f (i + 4) d3 ! j =
               (if i + 4 \<le> j \<and> (j - (i + 4)) mod 4 \<noteq> 3 then store_of f d3 j else d3 ! j)"
      using 1(1) [OF True refl refl refl, unfolded d3eq, OF jl] .
    have far: "store_of f d3 j = store_of f d j" if "i + 4 \<le> j"
      using that by (simp add: store_of_def d3_def rd_update_other)
    have near: "d3 ! j = (if j = i \<or> j = i + 1 \<or> j = i + 2 then store_of f d j else d ! j)"
      using 1(2) by (auto simp: d3_def nth_list_update)
    show ?thesis
    proof (cases "i + 4 \<le> j")
      case far_away: True
      have "j - i = (j - (i + 4)) + 4"
        using far_away by arith
      then have m: "(j - (i + 4)) mod 4 = (j - i) mod 4"
        by (metis mod_add_self2)
      have n: "d3 ! j = d ! j"
        using near far_away by simp
      have "rgb_loop f i d ! j =
              (if (j - i) mod 4 \<noteq> 3 then store_of f d j else d ! j)"
        using far_away by (simp only: body ih far [OF far_away] m n if_True simp_thms)
      moreover have "i \<le> j"
        using far_away by arith
      ultimately show ?thesis
        by simp
    next
      case close: False
      have r: "rgb_loop f i d ! j = d3 ! j"
        using close by (simp only: body ih simp_thms if_False)
      consider "j < i" | "j = i" | "j = i + 1" | "j = i + 2" | "j = i + 3"
        using close by arith
      then show ?thesis
      proof cases
        case 1
        then show ?thesis using r near by simp
      next
        case 2
        then show ?thesis using r near by simp
      next
        case 3
        then show ?thesis using r near by simp
      next
        case 4
        then show ?thesis using r near by simp
      next
        case 5
        then show ?thesis using r near by simp
      qed
    qed
  qed
qed

lemma round_half_even_range:
  assumes "0 \<le> q" "q \<le> 255"
  shows "0 \<le> round_half_even q \<and> round_half_even q \<le> 255"
proof -
  have f0: "0 \<le> \<lfloor>q\<rfloor>"
    using assms(1) by simp
  have f1: "\<lfloor>q\<rfloor> \<le> 255"
    using assms(2) by (simp add: floor_le_iff)
  have up: "\<lfloor>q\<rfloor> + 1 \<le> 255" if "of_int \<lfloor>q\<rfloor> + 1 / 2 \<le> q"
  proof -
    have "(of_int \<lfloor>q\<rfloor> :: rat) < 255"
      using that assms(2) by linarith
    then have "\<lfloor>q\<rfloor> < 255"
      by linarith
    then show ?thesis by simp
  qed
  show ?thesis
    using f0 f1 up by (auto simp: round_half_even_def Let_def)
qed

lemma unat_ToUint8Clamp:
  "int (unat (ToUint8Clamp (Some q))) = round_half_even (min 255 (max 0 q))"
proof -
  let ?k = "round_half_even (min 255 (max 0 q))"
  have r: "0 \<le> ?k \<and> ?k \<le> 255"
    using round_half_even_range [of "min 255 (max 0 q)"] by simp
  have "uint (word_of_int ?k :: byte) = ?k mod 256"
    by (simp add: uint_word_of_int)
  then have "uint (word_of_int ?k :: byte) = ?k"
    using r by simp
  then show ?thesis
    by (simp add: ToUint8Clamp_def)
qed

lemma clamp_idem: "min 255 (max 0 (min 255 (max 0 (q::rat)))) = min 255 (max 0 q)"
  by simp

lemma store_of_contrast:
  assumes "j < length d"
  shows "int (unat (store_of contrast d j)) =
           round_half_even (min 255 (max 0
             ((of_nat (unat (d ! j)) - 128) * (3 / 2) + 128)))"
  using assms
  by (simp only: store_of_def rd_def contrast_def clamp255_def if_True option.map
      unat_ToUint8Clamp clamp_idem)

lemma round_half_even_int: "round_half_even (of_int k) = k"
  by (simp add: round_half_even_def)

lemma enhanceContrast_eq:
  "enhanceContrast h img =
     (h @ [rgb_loop contrast 0 (h ! data img)],
      new_ImageData (h @ [rgb_loop contrast 0 (h ! data img)]) (length h)
        (width img) (height img))"
  by (simp add: enhanceContrast_def alloc_def enhanceContrast_loop_rgb Let_def)

lemma adjustBrightness_eq:
  "adjustBrightness h img b =
     (h @ [rgb_loop (brighten b) 0 (h ! data img)],
      new_ImageData (h @ [rgb_loop (brighten b) 0 (h ! data img)]) (length h)
        (width img) (height img))"
  by (simp add: adjustBrightness_def alloc_def adjustBrightness_loop_rgb Let_def)

lemma new_ImageData_ok:
  assumes "wf_image h img" and "length px = length (h ! data img)"
  shows "new_ImageData (h @ [px]) (length h) (width img) (height img) =
           Inr \<lparr>data = length h, width = width img, height = height img\<rparr>"
  using assms by (simp add: new_ImageData_def wf_image_def)

lemma fold_heap_lift:
  assumes step: "\<And>t h. s < length h \<Longrightarrow> a < length h \<Longrightarrow> F t h = h[a := G t (h ! s) (h ! a)]"
    and "s \<noteq> a" "s < length h" "a < length h"
  shows "fold F ts h = h[a := fold (\<lambda>t. G t (h ! s)) ts (h ! a)]"
  using assms(2-)
proof (induction ts arbitrary: h)
  case Nil
  then show ?case by simp
next
  case (Cons t ts)
  let ?h1 = "h[a := G t (h ! s) (h ! a)]"
  have f: "F t h = ?h1"
    using step Cons.prems by simp
  have s1: "?h1 ! s = h ! s"
    using Cons.prems by simp
  have a1: "?h1 ! a = G t (h ! s) (h ! a)"
    using Cons.prems by simp
  have "fold F ts ?h1 = ?h1[a := fold (\<lambda>t. G t (?h1 ! s)) ts (?h1 ! a)]"
    using Cons.IH [of ?h1] Cons.prems by simp
  then show ?case
    by (simp add: f s1 a1)
qed

lemma sharpen_loops_pure:
  assumes "s \<noteq> a" "s < length h" "a < length h"
  shows "sharpen_loops s a w ht h = h[a := sharpen_pure (h ! s) w ht (h ! a)]"
proof -
  have ch: "sharpen_channel s a w y x c h' =
              h'[a := (\<lambda>c src d. d[pix w y x c := sharpen_store src w y x c]) c (h' ! s) (h' ! a)]"
    for y x c h'
    by (simp add: sharpen_channel_def Let_def wr_def pix_def sharpen_store_def)
  have xs: "fold (sharpen_channel s a w y x) [0..<3] h' =
              h'[a := (\<lambda>x src. fold (\<lambda>c d. d[pix w y x c := sharpen_store src w y x c]) [0..<3])
                        x (h' ! s) (h' ! a)]"
    if "s < length h'" "a < length h'" for y x h'
    using fold_heap_lift [where F = "sharpen_channel s a w y x" and s = s and a = a
        and G = "\<lambda>c src d. d[pix w y x c := sharpen_store src w y x c]"
        and h = h' and ts = "[0..<3]"] ch assms(1) that
    by simp
  have ys: "fold (\<lambda>x. fold (sharpen_channel s a w y x) [0..<3]) [1..<w - 1] h' =
              h'[a := (\<lambda>y src. fold (\<lambda>x. fold (\<lambda>c d. d[pix w y x c := sharpen_store src w y x c])
                                        [0..<3]) [1..<w - 1]) y (h' ! s) (h' ! a)]"
    if "s < length h'" "a < length h'" for y h'
    using fold_heap_lift [where F = "\<lambda>x. fold (sharpen_channel s a w y x) [0..<3]"
        and s = s and a = a
        and G = "\<lambda>x src. fold (\<lambda>c d. d[pix w y x c := sharpen_store src w y x c]) [0..<3]"
        and h = h' and ts = "[1..<w - 1]"] xs assms(1) that
    by simp
  show ?thesis
    unfolding sharpen_loops_def sharpen_pure_def
    using fold_heap_lift [where
        F = "\<lambda>y. fold (\<lambda>x. fold (sharpen_channel s a w y x) [0..<3]) [1..<w - 1]"
        and s = s and a = a
        and G = "\<lambda>y src. fold (\<lambda>x. fold (\<lambda>c d. d[pix w y x c := sharpen_store src w y x c])
                                        [0..<3]) [1..<w - 1]"
        and h = h and ts = "[1..<ht - 1]"] ys assms
    by simp
qed

lemma fold_product:
  "fold (\<lambda>y. fold (g y) xs) ys = fold (\<lambda>(y, x). g y x) (List.product ys xs)"
proof (induction ys)
  case Nil
  then show ?case by simp
next
  case (Cons y ys)
  have "fold (\<lambda>(y, x). g y x) (map (Pair y) xs) = fold (g y) xs"
    by (simp add: fold_map comp_def)
  then show ?case
    using Cons by simp
qed

lemma sharpen_pure_flat:
  "sharpen_pure src w ht dst =
     fold (\<lambda>t d. d[(\<lambda>(y, x, c). pix w y x c) t := (\<lambda>(y, x, c). sharpen_store src w y x c) t])
          (triples w ht) dst"
proof -
  have inner: "(\<lambda>y. fold (\<lambda>x. fold (\<lambda>c d. d[pix w y x c := sharpen_store src w y x c]) [0..<3])
                       [1..<w - 1]) =
        (\<lambda>y. fold (\<lambda>(x, c) d. d[pix w y x c := sharpen_store src w y x c])
               (List.product [1..<w - 1] [0..<3]))"
    by (rule ext) (rule fold_product)
  have "sharpen_pure src w ht dst =
        fold (\<lambda>(y, xc). (\<lambda>(x, c) d. d[pix w y x c := sharpen_store src w y x c]) xc)
          (triples w ht) dst"
    unfolding sharpen_pure_def inner triples_def
    by (simp only: fold_product [where g = "\<lambda>y xc. (\<lambda>(x, c) d. d[pix w y x c := sharpen_store src w y x c]) xc"])
  also have "(\<lambda>(y, xc). (\<lambda>(x, c) d. d[pix w y x c := sharpen_store src w y x c]) xc) =
     (\<lambda>t d. d[(\<lambda>(y, x, c). pix w y x c) t := (\<lambda>(y, x, c). sharpen_store src w y x c) t])"
    by (auto simp: fun_eq_iff)
  finally show ?thesis .
qed

lemma fold_upd_length: "length (fold (\<lambda>t d. d[ix t := v t]) ts d) = length d"
  by (induction ts arbitrary: d) simp_all

lemma fold_upd_miss:
  "\<forall>t\<in>set ts. ix t \<noteq> j \<Longrightarrow> fold (\<lambda>t d. d[ix t := v t]) ts d ! j = d ! j"
  by (induction ts arbitrary: d) simp_all

lemma fold_upd_hit:
  assumes "t \<in> set ts" "inj_on ix (set ts)" "ix t < length d"
  shows "fold (\<lambda>t d. d[ix t := v t]) ts d ! ix t = v t"
  using assms
proof (induction ts arbitrary: d)
  case Nil
  then show ?case by simp
next
  case (Cons u us)
  have inj: "inj_on ix (set us)"
    using Cons.prems(2) by (simp add: inj_on_def)
  have len: "ix t < length (d[ix u := v u])"
    using Cons.prems(3) by simp
  show ?case
  proof (cases "t \<in> set us")
    case True
    then show ?thesis
      using Cons.IH [OF True inj len] by simp
  next
    case False
    then have tu: "t = u"
      using Cons.prems(1) by simp
    have "\<forall>t'\<in>set us. ix t' \<noteq> ix t"
      using Cons.prems(2) False tu by (auto simp: inj_on_def)
    then have "fold (\<lambda>t d. d[ix t := v t]) us (d[ix u := v u]) ! ix t = d[ix u := v u] ! ix t"
      by (rule fold_upd_miss)
    then show ?thesis
      using tu Cons.prems(3) by simp
  qed
qed

lemma mul_add_mod: "c < n \<Longrightarrow> (a * n + c) mod n = (c::nat)"
  by simp

lemma mul_add_div: "c < n \<Longrightarrow> (a * n + c) div n = (a::nat)"
  by simp

lemma pix_inj:
  assumes "pix w y x c = pix w y' x' c'" "x < w" "x' < w" "c < 4" "c' < 4"
  shows "y = y' \<and> x = x' \<and> c = c'"
proof -
  have e: "(y * w + x) * 4 + c = (y' * w + x') * 4 + c'"
    using assms(1) by (simp only: pix_def)
  have c: "c = c'"
    using arg_cong [OF e, of "\<lambda>n. n mod 4"]
    by (simp only: mul_add_mod [OF assms(4)] mul_add_mod [OF assms(5)])
  have p: "y * w + x = y' * w + x'"
    using arg_cong [OF e, of "\<lambda>n. n div 4"]
    by (simp only: mul_add_div [OF assms(4)] mul_add_div [OF assms(5)])
  have x: "x = x'"
    using arg_cong [OF p, of "\<lambda>n. n mod w"]
    by (simp only: mul_add_mod [OF assms(2)] mul_add_mod [OF assms(3)])
  have y: "y = y'"
    using arg_cong [OF p, of "\<lambda>n. n div w"]
    by (simp only: mul_add_div [OF assms(2)] mul_add_div [OF assms(3)])
  show ?thesis
    using x y c by simp
qed

lemma set_triples:
  "set (triples w ht) = {(y, x, c). 1 \<le> y \<and> y < ht - 1 \<and> 1 \<le> x \<and> x < w - 1 \<and> c < 3}"
  by (auto simp: triples_def)

lemma triples_inj: "inj_on (\<lambda>(y, x, c). pix w y x c) (set (triples w ht))"
  unfolding inj_on_def set_triples
proof (intro ballI impI)
  fix t t'
  assume a: "t \<in> {(y, x, c). 1 \<le> y \<and> y < ht - 1 \<and> 1 \<le> x \<and> x < w - 1 \<and> c < 3}"
    "t' \<in> {(y, x, c). 1 \<le> y \<and> y < ht - 1 \<and> 1 \<le> x \<and> x < w - 1 \<and> c < 3}"
    "(case t of (y, x, c) \<Rightarrow> pix w y x c) = (case t' of (y, x, c) \<Rightarrow> pix w y x c)"
  obtain y x c where t: "t = (y, x, c)" by (cases t)
  obtain y' x' c' where t': "t' = (y', x', c')" by (cases t')
  have "y = y' \<and> x = x' \<and> c = c'"
    using a t t' by (intro pix_inj [of w y x c y' x' c']) auto
  then show "t = t'"
    using t t' by simp
qed

lemma pix_bound:
  assumes "y < ht" "x < w" "c < 4"
  shows "pix w y x c < 4 * w * ht"
proof -
  have "y * w + x < (y + 1) * w"
    using assms(2) by simp
  also have "(y + 1) * w \<le> ht * w"
    using assms(1) by (intro mult_le_mono1) simp
  finally have "y * w + x < ht * w" .
  then have "(y * w + x) * 4 + c < (ht * w) * 4"
    using assms(3) by arith
  then show ?thesis
    by (simp add: pix_def mult.commute mult.left_commute)
qed

lemma sharpen_tap_in_range:
  assumes "0 \<le> int y + ky" "0 \<le> int x + kx"
    and "nat (int y + ky) < ht" "nat (int x + kx) < w" "c < 4"
    and "length src = 4 * w * ht"
  shows "sharpen_tap src w x y c ky kx (Some acc) =
           Some (acc + of_int (sample src w (nat (int x + kx)) (nat (int y + ky)) c) *
                       of_int (kernel ! nat ((ky + 1) * 3 + (kx + 1))))"
proof -
  let ?y = "nat (int y + ky)" and ?x = "nat (int x + kx)"
  have "((int y + ky) * int w + (int x + kx)) * 4 + int c = int (pix w ?y ?x c)"
    using assms(1,2) by (simp add: pix_def)
  then have idx: "nat (((int y + ky) * int w + (int x + kx)) * 4 + int c) = pix w ?y ?x c"
    by simp
  have "pix w ?y ?x c < length src"
    using pix_bound [OF assms(3-5)] assms(6) by simp
  then have "rd src (pix w ?y ?x c) = Some (of_int (sample src w ?x ?y c))"
    by (simp add: rd_def sample_def pix_def)
  then show ?thesis
    unfolding sharpen_tap_def Let_def idx by simp
qed

lemma sharpen_sum_interior:
  assumes "1 \<le> y" "y + 1 < ht" "1 \<le> x" "x + 1 < w" "c < 4" "length src = 4 * w * ht"
  shows "sharpen_sum src w x y c =
           Some (of_int (5 * sample src w x y c - sample src w x (y - 1) c
                         - sample src w (x - 1) y c - sample src w (x + 1) y c
                         - sample src w x (y + 1) c))"
proof -
  have t: "sharpen_tap src w x y c ky kx (Some acc) =
           Some (acc + of_int (sample src w (nat (int x + kx)) (nat (int y + ky)) c) *
                       of_int (kernel ! nat ((ky + 1) * 3 + (kx + 1))))"
    if "ky \<in> {-1, 0, 1}" "kx \<in> {-1, 0, 1}" for ky kx acc
    using that assms by (intro sharpen_tap_in_range [where ht = ht]) auto
  have n: "nat (int y - 1) = y - Suc 0" "nat (int x - 1) = x - Suc 0"
    "nat (int y + 1) = Suc y" "nat (int x + 1) = Suc x"
    by simp_all
  show ?thesis
    by (simp add: sharpen_sum_def t n kernel_def)
qed

lemma sharpen_pure_length: "length (sharpen_pure src w ht dst) = length dst"
  by (simp only: sharpen_pure_flat fold_upd_length)

lemma sharpen_pure_interior:
  assumes "1 \<le> y" "y + 1 < ht" "1 \<le> x" "x + 1 < w" "c < 3" "length dst = 4 * w * ht"
  shows "sharpen_pure src w ht dst ! pix w y x c = sharpen_store src w y x c"
proof -
  have m: "(y, x, c) \<in> set (triples w ht)"
    using assms by (simp add: set_triples less_diff_conv)
  have b: "(\<lambda>(y, x, c). pix w y x c) (y, x, c) < length dst"
    using pix_bound [of y ht x w c] assms by simp
  show ?thesis
    using fold_upd_hit [where ix = "\<lambda>(y, x, c). pix w y x c"
        and v = "\<lambda>(y, x, c). sharpen_store src w y x c", OF m triples_inj b]
    by (simp add: sharpen_pure_flat)
qed

lemma sharpen_pure_other:
  assumes "x < w" "c < 4" "x = 0 \<or> x + 1 = w \<or> y = 0 \<or> y + 1 = ht \<or> c = 3 \<or> ht \<le> y"
  shows "sharpen_pure src w ht dst ! pix w y x c = dst ! pix w y x c"
proof -
  have "(\<lambda>(y, x, c). pix w y x c) t \<noteq> pix w y x c" if "t \<in> set (triples w ht)" for t
  proof
    obtain y' x' c' where t: "t = (y', x', c')"
      by (cases t)
    have i: "1 \<le> y'" "y' < ht - 1" "1 \<le> x'" "x' < w - 1" "c' < 3"
      using that t by (simp_all add: set_triples)
    assume "(\<lambda>(y, x, c). pix w y x c) t = pix w y x c"
    then have "pix w y' x' c' = pix w y x c"
      using t by simp
    then have "y' = y \<and> x' = x \<and> c' = c"
      using i assms(1,2) by (intro pix_inj) auto
    then show False
      using i assms(3) by auto
  qed
  then have "\<forall>t\<in>set (triples w ht). (\<lambda>(y, x, c). pix w y x c) t \<noteq> pix w y x c"
    by blast
  then show ?thesis
    by (simp only: sharpen_pure_flat fold_upd_miss)
qed

lemma sharpen_store_value:
  assumes "1 \<le> y" "y + 1 < ht" "1 \<le> x" "x + 1 < w" "c < 4" "length src = 4 * w * ht"
  shows "int (unat (sharpen_store src w y x c)) =
           min 255 (max 0 (5 * sample src w x y c - sample src w x (y - 1) c
                           - sample src w (x - 1) y c - sample src w (x + 1) y c
                           - sample src w x (y + 1) c))"
proof -
  let ?k = "5 * sample src w x y c - sample src w x (y - 1) c
            - sample src w (x - 1) y c - sample src w (x + 1) y c - sample src w x (y + 1) c"
  have "int (unat (sharpen_store src w y x c)) =
          round_half_even (min 255 (max 0 (of_int ?k)))"
    by (simp only: sharpen_store_def sharpen_sum_interior [OF assms] clamp255_def option.map
        unat_ToUint8Clamp clamp_idem)
  also have "min 255 (max 0 (of_int ?k :: rat)) = of_int (min 255 (max 0 ?k))"
    by (simp only: of_int_max of_int_min of_int_numeral of_int_0)
  finally show ?thesis
    by (simp only: round_half_even_int)
qed

lemma sharpenImage_eq:
  assumes "wf_image h img"
  shows "sharpenImage h img =
     (h @ [sharpen_pure (h ! data img) (width img) (height img) (h ! data img)],
      Inr \<lparr>data = length h, width = width img, height = height img\<rparr>)"
proof -
  let ?S = "h ! data img"
  have s: "data img < length h"
    using assms by (simp add: wf_image_def)
  have l: "sharpen_loops (data img) (length h) (width img) (height img) (h @ [?S]) =
           (h @ [?S])[length h := sharpen_pure ((h @ [?S]) ! data img) (width img) (height img)
                                    ((h @ [?S]) ! length h)]"
    using s by (intro sharpen_loops_pure) simp_all
  have l2: "sharpen_loops (data img) (length h) (width img) (height img) (h @ [?S]) =
            h @ [sharpen_pure ?S (width img) (height img) ?S]"
    using s by (simp add: l nth_append)
  show ?thesis
    using new_ImageData_ok [OF assms, of "sharpen_pure ?S (width img) (height img) ?S"]
    by (simp add: sharpenImage_def alloc_def Let_def l2 sharpen_pure_length)
qed

lemma rgb_loop_from_start:
  assumes "j < length d"
  shows "rgb_loop f 0 d ! j = (if j mod 4 \<noteq> 3 then store_of f d j else d ! j)"
  using rgb_loop_nth [OF assms, of f 0] by simp

lemma alpha_index: "(4 * p + 3) mod 4 = (3::nat)"
  by presburger

lemma rgb_keeps_frame:
  assumes "wf_image h img"
  shows "keeps_frame h img
           (h @ [rgb_loop f 0 (h ! data img)],
            new_ImageData (h @ [rgb_loop f 0 (h ! data img)]) (length h)
              (width img) (height img))"
proof -
  let ?S = "h ! data img"
  have len: "length ?S = 4 * width img * height img" and lt: "data img < length h"
    using assms by (simp_all add: wf_image_def)
  have a: "rgb_loop f 0 ?S ! (4 * p + 3) = ?S ! (4 * p + 3)"
    if "p < width img * height img" for p
  proof -
    have "4 * p + 3 < length ?S"
      using that len by simp
    then show ?thesis
      by (simp only: rgb_loop_from_start alpha_index simp_thms if_False)
  qed
  show ?thesis
    using lt a
    by (simp add: keeps_frame_def new_ImageData_ok [OF assms] rgb_loop_length list_all_iff)
qed

lemma sharpen_keeps_frame:
  assumes "wf_image h img"
  shows "keeps_frame h img (sharpenImage h img)"
proof -
  let ?S = "h ! data img"
  have len: "length ?S = 4 * width img * height img" and lt: "data img < length h"
    and w: "0 < width img"
    using assms by (simp_all add: wf_image_def)
  have a: "sharpen_pure ?S (width img) (height img) ?S ! (4 * p + 3) = ?S ! (4 * p + 3)"
    if "p < width img * height img" for p
  proof -
    have x: "p mod width img < width img"
      using w by simp
    have "pix (width img) (p div width img) (p mod width img) 3 = 4 * p + 3"
      by (simp add: pix_def)
    then show ?thesis
      using sharpen_pure_other [of "p mod width img" "width img" 3 "p div width img" "height img"
          ?S ?S] x
      by simp
  qed
  show ?thesis
    using lt a
    by (simp add: keeps_frame_def sharpenImage_eq [OF assms] sharpen_pure_length list_all_iff)
qed

text \<open>
  Claim C10. For every ImageData, \<open>enhanceContrast\<close>, \<open>adjustBrightness\<close> with any
  integer delta and \<open>sharpenImage\<close> each return a new ImageData with the width, the
  height and the data length of the input and with every alpha sample (every fourth
  byte) equal to the input's; the buffer is a fresh array, and the input's array, like
  every array that existed before the call, is unmodified.
\<close>

theorem transforms_keep_frame:
  assumes "wf_image h img"
  shows "keeps_frame h img (enhanceContrast h img) \<and>
         keeps_frame h img (adjustBrightness h img b) \<and>
         keeps_frame h img (sharpenImage h img)"
  using rgb_keeps_frame [OF assms] sharpen_keeps_frame [OF assms]
  by (simp only: enhanceContrast_eq adjustBrightness_eq simp_thms)

theorem transforms_keep_frame_witness:
  "wf_image sample_heap sample_image \<and>
   keeps_frame sample_heap sample_image (enhanceContrast sample_heap sample_image) \<and>
   keeps_frame sample_heap sample_image (adjustBrightness sample_heap sample_image 30) \<and>
   keeps_frame sample_heap sample_image (sharpenImage sample_heap sample_image) \<and>
   adjustBrightness sample_heap sample_image 30 =
     ([[129, 131, 0, 7], [159, 161, 30, 7]], Inr \<lparr>data = 1, width = 1, height = 1\<rparr>)"
proof -
  have wf: "wf_image sample_heap sample_image"
    by (simp add: wf_image_def sample_heap_def sample_image_def)
  have ev: "adjustBrightness sample_heap sample_image 30 =
     ([[129, 131, 0, 7], [159, 161, 30, 7]], Inr \<lparr>data = 1, width = 1, height = 1\<rparr>)"
    by code_simp
  show ?thesis
    using wf ev transforms_keep_frame [OF wf, of 30] by simp
qed

text \<open>
  Claim C8, as the code has it. For every pixel buffer, \<open>enhanceContrast\<close> returns a new
  buffer of the same width and height, leaves the input and every alpha sample as they
  were, and sets each R, G and B sample to \<open>clamp(0, 255, (in - 128) * 1.5 + 128)\<close>
  rounded to the nearest integer, a half going to the even neighbour: the store into the
  \<open>Uint8ClampedArray\<close> rounds.
\<close>

theorem contrast_rounds_half_to_even:
  assumes "wf_image h img"
  shows "\<exists>h1 out. enhanceContrast h img = (h1, Inr out) \<and>
           width out = width img \<and> height out = height img \<and>
           keeps_frame h img (h1, Inr out) \<and>
           (\<forall>p c. p < width img * height img \<and> c < 3 \<longrightarrow>
              int (unat (h1 ! data out ! (4 * p + c))) =
                round_half_even (min 255 (max 0
                  ((of_nat (unat (h ! data img ! (4 * p + c))) - 128) * (3 / 2) + 128))))"
proof -
  let ?S = "h ! data img"
  let ?P = "rgb_loop contrast 0 ?S"
  let ?out = "\<lparr>data = length h, width = width img, height = height img\<rparr>"
  have len: "length ?S = 4 * width img * height img"
    using assms by (simp add: wf_image_def)
  have e: "enhanceContrast h img = (h @ [?P], Inr ?out)"
    by (simp only: enhanceContrast_eq new_ImageData_ok [OF assms rgb_loop_length])
  have k: "keeps_frame h img (h @ [?P], Inr ?out)"
    using rgb_keeps_frame [OF assms, of contrast]
    by (simp only: new_ImageData_ok [OF assms rgb_loop_length])
  have v: "int (unat (?P ! (4 * p + c))) =
             round_half_even (min 255 (max 0 ((of_nat (unat (?S ! (4 * p + c))) - 128) * (3 / 2) + 128)))"
    if "p < width img * height img" "c < 3" for p c
  proof -
    have j: "4 * p + c < length ?S"
      using that len by simp
    have "(4 * p + c) mod 4 \<noteq> 3"
      using that(2) by presburger
    then have "?P ! (4 * p + c) = store_of contrast ?S (4 * p + c)"
      by (simp only: rgb_loop_from_start [OF j] if_True simp_thms)
    then show ?thesis
      by (simp only: store_of_contrast [OF j])
  qed
  show ?thesis
    using e k v by (intro exI [of _ "h @ [?P]"] exI [of _ ?out]) simp
qed

theorem contrast_rounds_half_to_even_witness:
  "wf_image sample_heap sample_image \<and>
   (0::nat) < width sample_image * height sample_image \<and> (1::nat) < 3 \<and>
   enhanceContrast sample_heap sample_image =
     ([[129, 131, 0, 7], [130, 132, 0, 7]], Inr \<lparr>data = 1, width = 1, height = 1\<rparr>) \<and>
   int (unat (132 :: byte)) =
     round_half_even (min 255 (max 0 ((of_nat (unat (131 :: byte)) - 128) * (3 / 2) + 128)))"
proof -
  have wf: "wf_image sample_heap sample_image"
    by (simp add: wf_image_def sample_heap_def sample_image_def)
  have ev: "enhanceContrast sample_heap sample_image =
     ([[129, 131, 0, 7], [130, 132, 0, 7]], Inr \<lparr>data = 1, width = 1, height = 1\<rparr>)"
    by code_simp
  have d: "width sample_image * height sample_image = 1"
    by (simp add: sample_image_def)
  have i: "sample_heap ! data sample_image ! Suc 0 = 131"
    by (simp add: sample_heap_def sample_image_def)
  obtain h1 out where r: "enhanceContrast sample_heap sample_image = (h1, Inr out)"
    and k: "\<forall>p c. p < width sample_image * height sample_image \<and> c < 3 \<longrightarrow>
              int (unat (h1 ! data out ! (4 * p + c))) =
                round_half_even (min 255 (max 0
                  ((of_nat (unat (sample_heap ! data sample_image ! (4 * p + c))) - 128) *
                   (3 / 2) + 128)))"
    using contrast_rounds_half_to_even [OF wf] by blast
  have o: "h1 ! data out ! Suc 0 = 132"
    using r ev by auto
  have "int (unat (132 :: byte)) =
     round_half_even (min 255 (max 0 ((of_nat (unat (131 :: byte)) - 128) * (3 / 2) + 128)))"
    using k [rule_format, of 0 1] by (simp add: d i o)
  then show ?thesis
    using wf ev d by simp
qed

text \<open>
  The claim as the specification states it fails on every odd sample that does not
  saturate: for the sample 129 the formula gives 129.5 and the buffer holds 130.
\<close>

theorem contrast_sample_is_not_the_exact_clamp:
  "enhanceContrast sample_heap sample_image =
     ([[129, 131, 0, 7], [130, 132, 0, 7]], Inr \<lparr>data = 1, width = 1, height = 1\<rparr>) \<and>
   rat_of_nat (unat (130 :: byte)) \<noteq>
     min 255 (max 0 ((of_nat (unat (129 :: byte)) - 128) * (3 / 2) + 128))"
proof
  show "enhanceContrast sample_heap sample_image =
     ([[129, 131, 0, 7], [130, 132, 0, 7]], Inr \<lparr>data = 1, width = 1, height = 1\<rparr>)"
    by code_simp
  show "rat_of_nat (unat (130 :: byte)) \<noteq>
     min 255 (max 0 ((of_nat (unat (129 :: byte)) - 128) * (3 / 2) + 128))"
    by simp
qed

text \<open>
  Claim C9. For every pixel buffer, \<open>sharpenImage\<close> sets each R, G and B sample of each
  interior pixel to the kernel sum over the input (five times the sample, minus the
  samples above, left, right and below; the four corners of the kernel weigh 0), clamped
  to the range from 0 to 255; every sample of a pixel on the one-pixel border and every
  alpha sample keeps the value of the input.
\<close>

theorem sharpen_kernel_on_interior:
  assumes "wf_image h img"
  shows "\<exists>h1 out. sharpenImage h img = (h1, Inr out) \<and>
           width out = width img \<and> height out = height img \<and>
           length (h1 ! data out) = length (h ! data img) \<and>
           (\<forall>x y c. 1 \<le> x \<and> x + 1 < width img \<and> 1 \<le> y \<and> y + 1 < height img \<and> c < 3 \<longrightarrow>
              sample (h1 ! data out) (width img) x y c =
                min 255 (max 0
                  (5 * sample (h ! data img) (width img) x y c
                   - sample (h ! data img) (width img) x (y - 1) c
                   - sample (h ! data img) (width img) (x - 1) y c
                   - sample (h ! data img) (width img) (x + 1) y c
                   - sample (h ! data img) (width img) x (y + 1) c))) \<and>
           (\<forall>x y c. x < width img \<and> y < height img \<and> c < 4 \<and>
                    (x = 0 \<or> x + 1 = width img \<or> y = 0 \<or> y + 1 = height img \<or> c = 3) \<longrightarrow>
              h1 ! data out ! ((y * width img + x) * 4 + c) =
              h ! data img ! ((y * width img + x) * 4 + c))"
proof -
  let ?S = "h ! data img"
  let ?w = "width img" and ?ht = "height img"
  let ?P = "sharpen_pure ?S ?w ?ht ?S"
  let ?out = "\<lparr>data = length h, width = ?w, height = ?ht\<rparr>"
  have len: "length ?S = 4 * ?w * ?ht"
    using assms by (simp add: wf_image_def)
  have e: "sharpenImage h img = (h @ [?P], Inr ?out)"
    by (rule sharpenImage_eq [OF assms])
  have i: "sample ?P ?w x y c =
             min 255 (max 0 (5 * sample ?S ?w x y c - sample ?S ?w x (y - 1) c
                - sample ?S ?w (x - 1) y c - sample ?S ?w (x + 1) y c
                - sample ?S ?w x (y + 1) c))"
    if "1 \<le> x" "x + 1 < ?w" "1 \<le> y" "y + 1 < ?ht" "c < 3" for x y c
  proof -
    have c4: "c < 4"
      using that(5) by simp
    have "sample ?P ?w x y c = int (unat (?P ! pix ?w y x c))"
      by (simp only: sample_def pix_def)
    also have "?P ! pix ?w y x c = sharpen_store ?S ?w y x c"
      by (rule sharpen_pure_interior [OF that(3,4,1,2,5) len])
    finally show ?thesis
      by (simp only: sharpen_store_value [OF that(3,4,1,2) c4 len])
  qed
  have b: "?P ! ((y * ?w + x) * 4 + c) = ?S ! ((y * ?w + x) * 4 + c)"
    if "x < ?w" "c < 4" "x = 0 \<or> x + 1 = ?w \<or> y = 0 \<or> y + 1 = ?ht \<or> c = 3" for x y c
  proof -
    have "x = 0 \<or> x + 1 = ?w \<or> y = 0 \<or> y + 1 = ?ht \<or> c = 3 \<or> ?ht \<le> y"
      using that(3) by blast
    then show ?thesis
      using sharpen_pure_other [OF that(1,2), of y ?ht ?S ?S] by (simp only: pix_def)
  qed
  show ?thesis
    using e i b
    by (intro exI [of _ "h @ [?P]"] exI [of _ ?out]) (simp add: sharpen_pure_length)
qed

theorem sharpen_kernel_on_interior_witness:
  "wf_image sample_heap3 sample_image3 \<and>
   sharpenImage sample_heap3 sample_image3 =
     ([[10, 0, 0, 255, 20, 0, 0, 255, 30, 0, 0, 255,
        40, 0, 0, 255, 50, 7, 200, 255, 60, 0, 0, 255,
        70, 0, 0, 255, 80, 0, 0, 255, 90, 0, 0, 255],
       [10, 0, 0, 255, 20, 0, 0, 255, 30, 0, 0, 255,
        40, 0, 0, 255, 50, 35, 255, 255, 60, 0, 0, 255,
        70, 0, 0, 255, 80, 0, 0, 255, 90, 0, 0, 255]],
      Inr \<lparr>data = 1, width = 3, height = 3\<rparr>) \<and>
   (1::nat) \<le> 1 \<and> (1::nat) + 1 < width sample_image3 \<and> (1::nat) + 1 < height sample_image3 \<and>
   (2::nat) < 3 \<and>
   sample [10, 0, 0, 255, 20, 0, 0, 255, 30, 0, 0, 255,
           40, 0, 0, 255, 50, 35, 255, 255, 60, 0, 0, 255,
           70, 0, 0, 255, 80, 0, 0, 255, 90, 0, 0, 255] 3 1 1 2 =
     min 255 (max 0 (5 * 200 - 0 - 0 - 0 - 0)) \<and>
   (0::nat) < width sample_image3 \<and> (0::nat) < height sample_image3 \<and> (0::nat) < 4"
proof -
  have wf: "wf_image sample_heap3 sample_image3"
    by (simp add: wf_image_def sample_heap3_def sample_image3_def)
  have ev: "sharpenImage sample_heap3 sample_image3 =
     ([[10, 0, 0, 255, 20, 0, 0, 255, 30, 0, 0, 255,
        40, 0, 0, 255, 50, 7, 200, 255, 60, 0, 0, 255,
        70, 0, 0, 255, 80, 0, 0, 255, 90, 0, 0, 255],
       [10, 0, 0, 255, 20, 0, 0, 255, 30, 0, 0, 255,
        40, 0, 0, 255, 50, 35, 255, 255, 60, 0, 0, 255,
        70, 0, 0, 255, 80, 0, 0, 255, 90, 0, 0, 255]],
      Inr \<lparr>data = 1, width = 3, height = 3\<rparr>)"
    by code_simp
  have d: "width sample_image3 = 3" "height sample_image3 = 3"
    by (simp_all add: sample_image3_def)
  have s: "sample (sample_heap3 ! data sample_image3) 3 (Suc 0) (Suc 0) 2 = 200"
    "sample (sample_heap3 ! data sample_image3) 3 (Suc 0) 0 2 = 0"
    "sample (sample_heap3 ! data sample_image3) 3 0 (Suc 0) 2 = 0"
    "sample (sample_heap3 ! data sample_image3) 3 (Suc (Suc 0)) (Suc 0) 2 = 0"
    "sample (sample_heap3 ! data sample_image3) 3 (Suc 0) (Suc (Suc 0)) 2 = 0"
    by (simp_all add: sample_def sample_heap3_def sample_image3_def)
  obtain h1 out where r: "sharpenImage sample_heap3 sample_image3 = (h1, Inr out)"
    and k: "\<forall>x y c. 1 \<le> x \<and> x + 1 < width sample_image3 \<and> 1 \<le> y \<and>
              y + 1 < height sample_image3 \<and> c < 3 \<longrightarrow>
              sample (h1 ! data out) (width sample_image3) x y c =
                min 255 (max 0
                  (5 * sample (sample_heap3 ! data sample_image3) (width sample_image3) x y c
                   - sample (sample_heap3 ! data sample_image3) (width sample_image3) x (y - 1) c
                   - sample (sample_heap3 ! data sample_image3) (width sample_image3) (x - 1) y c
                   - sample (sample_heap3 ! data sample_image3) (width sample_image3) (x + 1) y c
                   - sample (sample_heap3 ! data sample_image3) (width sample_image3) x (y + 1) c))"
    using sharpen_kernel_on_interior [OF wf] by blast
  have "sample (h1 ! data out) 3 1 1 2 = min 255 (max 0 (5 * 200 - 0 - 0 - 0 - 0))"
    using k [rule_format, of 1 1 2] by (simp add: d s)
  moreover have "h1 ! data out = [10, 0, 0, 255, 20, 0, 0, 255, 30, 0, 0, 255,
           40, 0, 0, 255, 50, 35, 255, 255, 60, 0, 0, 255,
           70, 0, 0, 255, 80, 0, 0, 255, 90, 0, 0, 255]"
    using r ev by auto
  ultimately show ?thesis
    using wf ev d by simp
qed

section \<open>Verification: the strategies of one region\<close>

lemma bind_Inr: "m w = (w1, Inr v) \<Longrightarrow> bind m f w = f v w1"
  by (simp add: bind_def)

lemma first_success_Cons:
  "first_success dec (b # bs) =
     (case dec b attemptBoth of
        Some c \<Rightarrow> ([(b, attemptBoth)], Some (code_data c))
      | None \<Rightarrow> ((b, attemptBoth) # fst (first_success dec bs), snd (first_success dec bs)))"
  by (simp split: option.splits prod.splits)

lemma decode_step:
  assumes B: "buffer_of (heap w) img = b"
    and K: "\<exists>w2. K (w\<lparr>calls := calls w @ [(b, attemptBoth)]\<rparr>) =
                    (w2, Inr (snd (first_success dec rest))) \<and>
                 calls w2 = (calls w @ [(b, attemptBoth)]) @ fst (first_success dec rest)"
  shows "\<exists>w2. bind (jsQR dec img attemptBoth)
                 (\<lambda>code. case code of Some c \<Rightarrow> ret (Some (code_data c)) | None \<Rightarrow> K) w =
               (w2, Inr (snd (first_success dec (b # rest)))) \<and>
              calls w2 = calls w @ fst (first_success dec (b # rest))"
proof (cases "dec b attemptBoth")
  case None
  then show ?thesis
    using K by (simp add: bind_def jsQR_def B first_success_Cons del: first_success.simps)
next
  case (Some c)
  then show ?thesis
    by (simp add: bind_def jsQR_def B ret_def first_success_Cons del: first_success.simps)
qed

lemma scaleImage_apply:
  "scaleImage scl cv s w =
     (case scl cv s of
        None \<Rightarrow> (w, Inr None)
      | Some (px, W, H) \<Rightarrow>
          (w\<lparr>heap := heap w @ [px]\<rparr>,
           Inr (Some \<lparr>data = length (heap w), width = W, height = H\<rparr>)))"
  by (simp add: scaleImage_def on_heap_def alloc_def split: option.splits prod.splits)

lemma buffer_of_fresh:
  "buffer_of (h @ [px]) \<lparr>data = length h, width = W, height = H\<rparr> = (px, W, H)"
  by (simp add: buffer_of_def)

lemma try_scales_first_success:
  "\<exists>w2. try_scales dec scl cv ss w =
          (w2, Inr (snd (first_success dec (List.map_filter (scl cv) ss)))) \<and>
        calls w2 = calls w @ fst (first_success dec (List.map_filter (scl cv) ss))"
proof (induction ss arbitrary: w)
  case Nil
  then show ?case
    by (simp add: ret_def List.map_filter_simps)
next
  case (Cons s ss)
  show ?case
  proof (cases "scl cv s")
    case None
    then show ?thesis
      using Cons.IH [of w]
      by (simp add: bind_def scaleImage_apply List.map_filter_simps del: first_success.simps)
  next
    case (Some b)
    obtain px W H where b: "b = (px, W, H)"
      by (cases b)
    let ?w1 = "w\<lparr>heap := heap w @ [px]\<rparr>"
    let ?img = "\<lparr>data = length (heap w), width = W, height = H\<rparr>"
    have s1: "scaleImage scl cv s w = (?w1, Inr (Some ?img))"
      using Some b by (simp add: scaleImage_apply)
    have bf: "buffer_of (heap ?w1) ?img = b"
      using b by (simp add: buffer_of_fresh)
    have k: "\<exists>w2. try_scales dec scl cv ss (?w1\<lparr>calls := calls ?w1 @ [(b, attemptBoth)]\<rparr>) =
                    (w2, Inr (snd (first_success dec (List.map_filter (scl cv) ss)))) \<and>
                 calls w2 = (calls ?w1 @ [(b, attemptBoth)]) @
                            fst (first_success dec (List.map_filter (scl cv) ss))"
      using Cons.IH [of "?w1\<lparr>calls := calls ?w1 @ [(b, attemptBoth)]\<rparr>"] by simp
    have "\<exists>w2. bind (jsQR dec ?img attemptBoth)
                 (\<lambda>code. case code of Some c \<Rightarrow> ret (Some (code_data c))
                         | None \<Rightarrow> try_scales dec scl cv ss) ?w1 =
               (w2, Inr (snd (first_success dec (b # List.map_filter (scl cv) ss)))) \<and>
              calls w2 = calls ?w1 @ fst (first_success dec (b # List.map_filter (scl cv) ss))"
      by (rule decode_step [where K = "try_scales dec scl cv ss", OF bf k])
    then show ?thesis
      using Some by (simp add: bind_Inr [where m = "scaleImage scl cv s", OF s1] List.map_filter_simps del: first_success.simps)
  qed
qed


lemma wf_image_grow:
  assumes "wf_image h img"
  shows "wf_image (h @ [px]) img" and "(h @ [px]) ! data img = h ! data img"
  using assms by (simp_all add: wf_image_def nth_append)

lemma on_heap_contrast:
  assumes "wf_image (heap w) img"
  shows "on_heap (\<lambda>h. enhanceContrast h img) w =
           (w\<lparr>heap := heap w @ [rgb_loop contrast 0 (heap w ! data img)]\<rparr>,
            Inr \<lparr>data = length (heap w), width = width img, height = height img\<rparr>)"
  by (simp add: on_heap_def enhanceContrast_eq new_ImageData_ok [OF assms rgb_loop_length])

lemma on_heap_brightness:
  assumes "wf_image (heap w) img"
  shows "on_heap (\<lambda>h. adjustBrightness h img b) w =
           (w\<lparr>heap := heap w @ [rgb_loop (brighten b) 0 (heap w ! data img)]\<rparr>,
            Inr \<lparr>data = length (heap w), width = width img, height = height img\<rparr>)"
  by (simp add: on_heap_def adjustBrightness_eq new_ImageData_ok [OF assms rgb_loop_length])

lemma on_heap_sharpen:
  assumes "wf_image (heap w) img"
  shows "on_heap (\<lambda>h. sharpenImage h img) w =
           (w\<lparr>heap := heap w @ [sharpen_pure (heap w ! data img) (width img) (height img)
                                     (heap w ! data img)]\<rparr>,
            Inr \<lparr>data = length (heap w), width = width img, height = height img\<rparr>)"
  by (simp add: on_heap_def sharpenImage_eq [OF assms])

lemma wf_single:
  assumes "wf_canvas cv"
  shows "wf_image [pixels cv] \<lparr>data = 0, width = cwidth cv, height = cheight cv\<rparr>"
  using assms by (simp add: wf_image_def wf_canvas_def)

lemma px_of_contrast:
  assumes "wf_canvas cv"
  shows "px_of enhanceContrast (pixels cv, cwidth cv, cheight cv) =
           (rgb_loop contrast 0 (pixels cv), cwidth cv, cheight cv)"
  using new_ImageData_ok [OF wf_single [OF assms], of "rgb_loop contrast 0 (pixels cv)"]
  by (simp add: px_of_def enhanceContrast_eq rgb_loop_length buffer_of_def)

lemma px_of_brightness:
  assumes "wf_canvas cv"
  shows "px_of (\<lambda>h img. adjustBrightness h img b) (pixels cv, cwidth cv, cheight cv) =
           (rgb_loop (brighten b) 0 (pixels cv), cwidth cv, cheight cv)"
  using new_ImageData_ok [OF wf_single [OF assms], of "rgb_loop (brighten b) 0 (pixels cv)"]
  by (simp add: px_of_def adjustBrightness_eq rgb_loop_length buffer_of_def)

lemma px_of_sharpen:
  assumes "wf_canvas cv"
  shows "px_of sharpenImage (pixels cv, cwidth cv, cheight cv) =
           (sharpen_pure (pixels cv) (cwidth cv) (cheight cv) (pixels cv), cwidth cv, cheight cv)"
  using sharpenImage_eq [OF wf_single [OF assms]]
  by (simp add: px_of_def buffer_of_def)

lemma candidates_eq:
  assumes "wf_canvas cv"
  shows "candidates scl cv =
     [(pixels cv, cwidth cv, cheight cv),
      (rgb_loop contrast 0 (pixels cv), cwidth cv, cheight cv),
      (rgb_loop (brighten 30) 0 (pixels cv), cwidth cv, cheight cv),
      (rgb_loop (brighten (- 30)) 0 (pixels cv), cwidth cv, cheight cv),
      (sharpen_pure (pixels cv) (cwidth cv) (cheight cv) (pixels cv), cwidth cv, cheight cv)]
     @ List.map_filter (scl cv) scales"
  by (simp add: candidates_def Let_def px_of_contrast [OF assms] px_of_brightness [OF assms]
      px_of_sharpen [OF assms] scales_def)


lemma getImageData_ok:
  assumes "wf_canvas cv"
  shows "getImageData cv w =
           (w\<lparr>heap := heap w @ [pixels cv]\<rparr>,
            Inr \<lparr>data = length (heap w), width = cwidth cv, height = cheight cv\<rparr>)"
  using assms by (simp add: getImageData_def on_heap_def alloc_def wf_canvas_def)

lemma transform_step:
  assumes T: "on_heap T w =
                (w\<lparr>heap := heap w @ [P]\<rparr>,
                 Inr \<lparr>data = length (heap w), width = W, height = H\<rparr>)"
    and K: "\<exists>w2. K (w\<lparr>heap := heap w @ [P], calls := calls w @ [((P, W, H), attemptBoth)]\<rparr>) =
                    (w2, Inr (snd (first_success dec rest))) \<and>
                 calls w2 = (calls w @ [((P, W, H), attemptBoth)]) @ fst (first_success dec rest)"
  shows "\<exists>w2. bind (on_heap T) (\<lambda>img. bind (jsQR dec img attemptBoth)
                 (\<lambda>code. case code of Some c \<Rightarrow> ret (Some (code_data c)) | None \<Rightarrow> K)) w =
               (w2, Inr (snd (first_success dec ((P, W, H) # rest)))) \<and>
              calls w2 = calls w @ fst (first_success dec ((P, W, H) # rest))"
proof -
  let ?w1 = "w\<lparr>heap := heap w @ [P]\<rparr>"
  let ?img = "\<lparr>data = length (heap w), width = W, height = H\<rparr>"
  have b: "buffer_of (heap ?w1) ?img = (P, W, H)"
    by (simp add: buffer_of_fresh)
  have k: "\<exists>w2. K (?w1\<lparr>calls := calls ?w1 @ [((P, W, H), attemptBoth)]\<rparr>) =
                  (w2, Inr (snd (first_success dec rest))) \<and>
               calls w2 = (calls ?w1 @ [((P, W, H), attemptBoth)]) @ fst (first_success dec rest)"
    using K by simp
  have "\<exists>w2. bind (jsQR dec ?img attemptBoth)
                 (\<lambda>code. case code of Some c \<Rightarrow> ret (Some (code_data c)) | None \<Rightarrow> K) ?w1 =
               (w2, Inr (snd (first_success dec ((P, W, H) # rest)))) \<and>
              calls w2 = calls ?w1 @ fst (first_success dec ((P, W, H) # rest))"
    by (rule decode_step [where K = K, OF b k])
  then show ?thesis
    by (simp add: bind_Inr [where m = "on_heap T", OF T] del: first_success.simps)
qed

lemma strategies_first_success:
  assumes "wf_canvas cv"
  shows "\<exists>w2. tryMultipleRecognitionStrategies dec scl cv w =
               (w2, Inr (snd (first_success dec (candidates scl cv)))) \<and>
              calls w2 = calls w @ fst (first_success dec (candidates scl cv))"
proof -
  let ?S = "pixels cv" and ?W = "cwidth cv" and ?H = "cheight cv"
  let ?a = "length (heap w)"
  define orig where "orig = \<lparr>data = ?a, width = ?W, height = ?H\<rparr>"
  define inv :: "world \<Rightarrow> bool" where "inv = (\<lambda>w1. wf_image (heap w1) orig \<and> heap w1 ! ?a = ?S)"
  define cs5 where "cs5 = List.map_filter (scl cv) scales"
  define P1 where "P1 = rgb_loop contrast 0 ?S"
  define P2 where "P2 = rgb_loop (brighten 30) 0 ?S"
  define P3 where "P3 = rgb_loop (brighten (- 30)) 0 ?S"
  define P4 where "P4 = sharpen_pure ?S ?W ?H ?S"
  define T5 where "T5 = try_scales dec scl cv scales"
  define T4 where "T4 = bind (on_heap (\<lambda>h. sharpenImage h orig)) (\<lambda>img.
      bind (jsQR dec img attemptBoth) (\<lambda>code.
        case code of Some c \<Rightarrow> ret (Some (code_data c)) | None \<Rightarrow> T5))"
  define T3 where "T3 = bind (on_heap (\<lambda>h. adjustBrightness h orig (- 30))) (\<lambda>img.
      bind (jsQR dec img attemptBoth) (\<lambda>code.
        case code of Some c \<Rightarrow> ret (Some (code_data c)) | None \<Rightarrow> T4))"
  define T2 where "T2 = bind (on_heap (\<lambda>h. adjustBrightness h orig 30)) (\<lambda>img.
      bind (jsQR dec img attemptBoth) (\<lambda>code.
        case code of Some c \<Rightarrow> ret (Some (code_data c)) | None \<Rightarrow> T3))"
  define T1 where "T1 = bind (on_heap (\<lambda>h. enhanceContrast h orig)) (\<lambda>img.
      bind (jsQR dec img attemptBoth) (\<lambda>code.
        case code of Some c \<Rightarrow> ret (Some (code_data c)) | None \<Rightarrow> T2))"
  define T0 where "T0 = bind (jsQR dec orig attemptBoth) (\<lambda>code.
        case code of Some c \<Rightarrow> ret (Some (code_data c)) | None \<Rightarrow> T1)"
  have od: "data orig = ?a" "width orig = ?W" "height orig = ?H"
    by (simp_all add: orig_def)
  have grow: "inv (w1\<lparr>heap := heap w1 @ [P], calls := cl\<rparr>)" if "inv w1" for w1 P cl
    using that wf_image_grow [of "heap w1" orig P] by (simp add: inv_def od)
  have L5: "\<exists>w2. T5 w1 = (w2, Inr (snd (first_success dec cs5))) \<and>
                 calls w2 = calls w1 @ fst (first_success dec cs5)" for w1
    unfolding T5_def cs5_def by (rule try_scales_first_success)
  have L4: "\<exists>w2. T4 w1 = (w2, Inr (snd (first_success dec ((P4, ?W, ?H) # cs5)))) \<and>
                 calls w2 = calls w1 @ fst (first_success dec ((P4, ?W, ?H) # cs5))"
    if i: "inv w1" for w1
  proof -
    have t: "on_heap (\<lambda>h. sharpenImage h orig) w1 =
               (w1\<lparr>heap := heap w1 @ [P4]\<rparr>,
                Inr \<lparr>data = length (heap w1), width = ?W, height = ?H\<rparr>)"
      using on_heap_sharpen [of w1 orig] i by (simp add: inv_def od P4_def)
    have k: "\<exists>w2. T5 (w1\<lparr>heap := heap w1 @ [P4],
                           calls := calls w1 @ [((P4, ?W, ?H), attemptBoth)]\<rparr>) =
                    (w2, Inr (snd (first_success dec cs5))) \<and>
                 calls w2 = (calls w1 @ [((P4, ?W, ?H), attemptBoth)]) @
                            fst (first_success dec cs5)"
      using L5 [of "w1\<lparr>heap := heap w1 @ [P4],
                           calls := calls w1 @ [((P4, ?W, ?H), attemptBoth)]\<rparr>"] by simp
    show ?thesis
      unfolding T4_def by (rule transform_step [where K = T5, OF t k])
  qed
  have L3: "\<exists>w2. T3 w1 = (w2, Inr (snd (first_success dec ((P3, ?W, ?H) # (P4, ?W, ?H) # cs5)))) \<and>
                 calls w2 = calls w1 @ fst (first_success dec ((P3, ?W, ?H) # (P4, ?W, ?H) # cs5))"
    if i: "inv w1" for w1
  proof -
    have t: "on_heap (\<lambda>h. adjustBrightness h orig (- 30)) w1 =
               (w1\<lparr>heap := heap w1 @ [P3]\<rparr>,
                Inr \<lparr>data = length (heap w1), width = ?W, height = ?H\<rparr>)"
      using on_heap_brightness [of w1 orig "- 30"] i by (simp add: inv_def od P3_def)
    have k: "\<exists>w2. T4 (w1\<lparr>heap := heap w1 @ [P3],
                           calls := calls w1 @ [((P3, ?W, ?H), attemptBoth)]\<rparr>) =
                    (w2, Inr (snd (first_success dec ((P4, ?W, ?H) # cs5)))) \<and>
                 calls w2 = (calls w1 @ [((P3, ?W, ?H), attemptBoth)]) @
                            fst (first_success dec ((P4, ?W, ?H) # cs5))"
      using L4 [OF grow [where P = P3 and cl = "calls w1 @ [((P3, ?W, ?H), attemptBoth)]", OF i]] by simp
    show ?thesis
      unfolding T3_def by (rule transform_step [where K = T4, OF t k])
  qed
  have L2: "\<exists>w2. T2 w1 = (w2, Inr (snd (first_success dec
                    ((P2, ?W, ?H) # (P3, ?W, ?H) # (P4, ?W, ?H) # cs5)))) \<and>
                 calls w2 = calls w1 @ fst (first_success dec
                    ((P2, ?W, ?H) # (P3, ?W, ?H) # (P4, ?W, ?H) # cs5))"
    if i: "inv w1" for w1
  proof -
    have t: "on_heap (\<lambda>h. adjustBrightness h orig 30) w1 =
               (w1\<lparr>heap := heap w1 @ [P2]\<rparr>,
                Inr \<lparr>data = length (heap w1), width = ?W, height = ?H\<rparr>)"
      using on_heap_brightness [of w1 orig 30] i by (simp add: inv_def od P2_def)
    have k: "\<exists>w2. T3 (w1\<lparr>heap := heap w1 @ [P2],
                           calls := calls w1 @ [((P2, ?W, ?H), attemptBoth)]\<rparr>) =
                    (w2, Inr (snd (first_success dec ((P3, ?W, ?H) # (P4, ?W, ?H) # cs5)))) \<and>
                 calls w2 = (calls w1 @ [((P2, ?W, ?H), attemptBoth)]) @
                            fst (first_success dec ((P3, ?W, ?H) # (P4, ?W, ?H) # cs5))"
      using L3 [OF grow [where P = P2 and cl = "calls w1 @ [((P2, ?W, ?H), attemptBoth)]", OF i]] by simp
    show ?thesis
      unfolding T2_def by (rule transform_step [where K = T3, OF t k])
  qed
  have L1: "\<exists>w2. T1 w1 = (w2, Inr (snd (first_success dec
                    ((P1, ?W, ?H) # (P2, ?W, ?H) # (P3, ?W, ?H) # (P4, ?W, ?H) # cs5)))) \<and>
                 calls w2 = calls w1 @ fst (first_success dec
                    ((P1, ?W, ?H) # (P2, ?W, ?H) # (P3, ?W, ?H) # (P4, ?W, ?H) # cs5))"
    if i: "inv w1" for w1
  proof -
    have t: "on_heap (\<lambda>h. enhanceContrast h orig) w1 =
               (w1\<lparr>heap := heap w1 @ [P1]\<rparr>,
                Inr \<lparr>data = length (heap w1), width = ?W, height = ?H\<rparr>)"
      using on_heap_contrast [of w1 orig] i by (simp add: inv_def od P1_def)
    have k: "\<exists>w2. T2 (w1\<lparr>heap := heap w1 @ [P1],
                           calls := calls w1 @ [((P1, ?W, ?H), attemptBoth)]\<rparr>) =
                    (w2, Inr (snd (first_success dec ((P2, ?W, ?H) # (P3, ?W, ?H) # (P4, ?W, ?H) # cs5)))) \<and>
                 calls w2 = (calls w1 @ [((P1, ?W, ?H), attemptBoth)]) @
                            fst (first_success dec ((P2, ?W, ?H) # (P3, ?W, ?H) # (P4, ?W, ?H) # cs5))"
      using L2 [OF grow [where P = P1 and cl = "calls w1 @ [((P1, ?W, ?H), attemptBoth)]", OF i]] by simp
    show ?thesis
      unfolding T1_def by (rule transform_step [where K = T2, OF t k])
  qed
  let ?w0 = "w\<lparr>heap := heap w @ [?S]\<rparr>"
  have i0: "inv ?w0"
    using assms by (simp add: inv_def wf_image_def wf_canvas_def od)
  have i0': "inv (?w0\<lparr>calls := calls ?w0 @ [((?S, ?W, ?H), attemptBoth)]\<rparr>)"
    using i0 by (simp add: inv_def)
  have b0: "buffer_of (heap ?w0) orig = (?S, ?W, ?H)"
    by (simp add: buffer_of_def od)
  have L0: "\<exists>w2. T0 ?w0 = (w2, Inr (snd (first_success dec ((?S, ?W, ?H) #
                    (P1, ?W, ?H) # (P2, ?W, ?H) # (P3, ?W, ?H) # (P4, ?W, ?H) # cs5)))) \<and>
                 calls w2 = calls ?w0 @ fst (first_success dec ((?S, ?W, ?H) #
                    (P1, ?W, ?H) # (P2, ?W, ?H) # (P3, ?W, ?H) # (P4, ?W, ?H) # cs5))"
  proof -
    have k: "\<exists>w2. T1 (?w0\<lparr>calls := calls ?w0 @ [((?S, ?W, ?H), attemptBoth)]\<rparr>) =
                    (w2, Inr (snd (first_success dec ((P1, ?W, ?H) # (P2, ?W, ?H) # (P3, ?W, ?H) # (P4, ?W, ?H) # cs5)))) \<and>
                 calls w2 = (calls ?w0 @ [((?S, ?W, ?H), attemptBoth)]) @
                            fst (first_success dec ((P1, ?W, ?H) # (P2, ?W, ?H) # (P3, ?W, ?H) # (P4, ?W, ?H) # cs5))"
      using L1 [OF i0'] by simp
    show ?thesis
      unfolding T0_def by (rule decode_step [where K = T1, OF b0 k])
  qed
  have c: "candidates scl cv = (?S, ?W, ?H) #
             (P1, ?W, ?H) # (P2, ?W, ?H) # (P3, ?W, ?H) # (P4, ?W, ?H) # cs5"
    by (simp add: candidates_eq [OF assms] P1_def P2_def P3_def P4_def cs5_def)
  have g: "getImageData cv w = (?w0, Inr orig)"
    by (simp add: getImageData_ok [OF assms] orig_def)
  have u: "tryMultipleRecognitionStrategies dec scl cv w = T0 ?w0"
    unfolding tryMultipleRecognitionStrategies_def T0_def T1_def T2_def T3_def T4_def T5_def
    by (simp only: bind_Inr [where m = "getImageData cv", OF g])
  show ?thesis
    using L0 by (simp only: u c) simp
qed


lemma first_success_none:
  "snd (first_success dec bs) = None \<Longrightarrow>
     fst (first_success dec bs) = map (\<lambda>b. (b, attemptBoth)) bs \<and>
     (\<forall>b\<in>set bs. dec b attemptBoth = None)"
  by (induction bs) (auto split: option.splits prod.splits)

lemma first_success_some:
  "snd (first_success dec bs) = Some s \<Longrightarrow>
     \<exists>pre b post c. bs = pre @ b # post \<and> (\<forall>b'\<in>set pre. dec b' attemptBoth = None) \<and>
        dec b attemptBoth = Some c \<and> s = code_data c \<and>
        fst (first_success dec bs) = map (\<lambda>b. (b, attemptBoth)) (pre @ [b])"
proof (induction bs)
  case Nil
  then show ?case by simp
next
  case (Cons a bs)
  show ?case
  proof (cases "dec a attemptBoth")
    case (Some c)
    then have "a # bs = [] @ a # bs \<and> (\<forall>b'\<in>set []. dec b' attemptBoth = None) \<and>
        dec a attemptBoth = Some c \<and> s = code_data c \<and>
        fst (first_success dec (a # bs)) = map (\<lambda>b. (b, attemptBoth)) ([] @ [a])"
      using Cons.prems by simp
    then show ?thesis by blast
  next
    case None
    then have "snd (first_success dec bs) = Some s"
      using Cons.prems by (simp add: first_success_Cons del: first_success.simps)
    then obtain pre b post c where p: "bs = pre @ b # post"
      "\<forall>b'\<in>set pre. dec b' attemptBoth = None" "dec b attemptBoth = Some c" "s = code_data c"
      "fst (first_success dec bs) = map (\<lambda>b. (b, attemptBoth)) (pre @ [b])"
      using Cons.IH by blast
    have "a # bs = (a # pre) @ b # post \<and> (\<forall>b'\<in>set (a # pre). dec b' attemptBoth = None) \<and>
        dec b attemptBoth = Some c \<and> s = code_data c \<and>
        fst (first_success dec (a # bs)) = map (\<lambda>b. (b, attemptBoth)) ((a # pre) @ [b])"
      using p None by (simp add: first_success_Cons del: first_success.simps)
    then show ?thesis by blast
  qed
qed

text \<open>
  Claim C7. On a canvas with pixels, \<open>tryMultipleRecognitionStrategies\<close> calls the decode
  primitive with both polarities on the candidate buffers in this order: the original,
  the contrast-enhanced, the brightened (+30), the darkened (-30), the sharpened, then
  the rescalings by 0.5, 0.75, 1.25, 1.5 and 2.0 that \<open>scaleImage\<close> could produce. It
  stops at the first buffer that decodes and returns its payload, so the calls it made
  are exactly the candidates up to and including that one; when no candidate decodes it
  has tried them all and returns \<open>null\<close>, and it does not raise.
\<close>

theorem strategies_in_order_until_first_success:
  assumes "wf_canvas cv"
  shows "\<exists>w2 l r. tryMultipleRecognitionStrategies dec scl cv w = (w2, Inr r) \<and>
           calls w2 = calls w @ l \<and>
           first_success dec (candidates scl cv) = (l, r) \<and>
           (r = None \<longrightarrow>
              l = map (\<lambda>b. (b, attemptBoth)) (candidates scl cv) \<and>
              (\<forall>b\<in>set (candidates scl cv). dec b attemptBoth = None)) \<and>
           (\<forall>s. r = Some s \<longrightarrow>
              (\<exists>pre b post c. candidates scl cv = pre @ b # post \<and>
                 (\<forall>b'\<in>set pre. dec b' attemptBoth = None) \<and>
                 dec b attemptBoth = Some c \<and> s = code_data c \<and>
                 l = map (\<lambda>b. (b, attemptBoth)) (pre @ [b])))"
proof -
  let ?l = "fst (first_success dec (candidates scl cv))"
  let ?r = "snd (first_success dec (candidates scl cv))"
  obtain w2 where r: "tryMultipleRecognitionStrategies dec scl cv w = (w2, Inr ?r)"
    and c: "calls w2 = calls w @ ?l"
    using strategies_first_success [OF assms] by blast
  have n: "?r = None \<longrightarrow> ?l = map (\<lambda>b. (b, attemptBoth)) (candidates scl cv) \<and>
              (\<forall>b\<in>set (candidates scl cv). dec b attemptBoth = None)"
    using first_success_none by blast
  have s: "\<forall>s. ?r = Some s \<longrightarrow>
              (\<exists>pre b post c. candidates scl cv = pre @ b # post \<and>
                 (\<forall>b'\<in>set pre. dec b' attemptBoth = None) \<and>
                 dec b attemptBoth = Some c \<and> s = code_data c \<and>
                 ?l = map (\<lambda>b. (b, attemptBoth)) (pre @ [b]))"
    using first_success_some by blast
  have p: "first_success dec (candidates scl cv) = (?l, ?r)"
    by simp
  show ?thesis
    by (intro exI [of _ w2] exI [of _ ?l] exI [of _ ?r] conjI r c p n s)
qed

theorem strategies_in_order_until_first_success_witness:
  "wf_canvas sample_canvas \<and>
   candidates no_scale sample_canvas =
     [([129, 131, 0, 7], 1, 1), ([130, 132, 0, 7], 1, 1), ([159, 161, 30, 7], 1, 1),
      ([99, 101, 0, 7], 1, 1), ([129, 131, 0, 7], 1, 1)] \<and>
   (\<exists>w2. tryMultipleRecognitionStrategies bright_only no_scale sample_canvas
           \<lparr>heap = [], calls = []\<rparr> = (w2, Inr (Some (js ''hi''))) \<and>
         calls w2 = [(([129, 131, 0, 7], 1, 1), attemptBoth),
                     (([130, 132, 0, 7], 1, 1), attemptBoth),
                     (([159, 161, 30, 7], 1, 1), attemptBoth)]) \<and>
   (\<exists>w2. tryMultipleRecognitionStrategies no_code no_scale sample_canvas
           \<lparr>heap = [], calls = []\<rparr> = (w2, Inr None) \<and>
         calls w2 = map (\<lambda>b. (b, attemptBoth)) (candidates no_scale sample_canvas))"
proof -
  have wf: "wf_canvas sample_canvas"
    by (simp add: wf_canvas_def sample_canvas_def)
  have c: "candidates no_scale sample_canvas =
     [([129, 131, 0, 7], 1, 1), ([130, 132, 0, 7], 1, 1), ([159, 161, 30, 7], 1, 1),
      ([99, 101, 0, 7], 1, 1), ([129, 131, 0, 7], 1, 1)]"
    by code_simp
  have f1: "first_success bright_only (candidates no_scale sample_canvas) =
     ([(([129, 131, 0, 7], 1, 1), attemptBoth), (([130, 132, 0, 7], 1, 1), attemptBoth),
       (([159, 161, 30, 7], 1, 1), attemptBoth)], Some (js ''hi''))"
    by (simp add: c bright_only_def)
  have f2: "first_success no_code (candidates no_scale sample_canvas) =
     (map (\<lambda>b. (b, attemptBoth)) (candidates no_scale sample_canvas), None)"
    by (simp add: c no_code_def)
  have a: "\<exists>w2. tryMultipleRecognitionStrategies bright_only no_scale sample_canvas
           \<lparr>heap = [], calls = []\<rparr> = (w2, Inr (Some (js ''hi''))) \<and>
         calls w2 = [(([129, 131, 0, 7], 1, 1), attemptBoth),
                     (([130, 132, 0, 7], 1, 1), attemptBoth),
                     (([159, 161, 30, 7], 1, 1), attemptBoth)]"
    using strategies_in_order_until_first_success
      [OF wf, of bright_only no_scale "\<lparr>heap = [], calls = []\<rparr>"] f1
    by auto
  have b: "\<exists>w2. tryMultipleRecognitionStrategies no_code no_scale sample_canvas
           \<lparr>heap = [], calls = []\<rparr> = (w2, Inr None) \<and>
         calls w2 = map (\<lambda>b. (b, attemptBoth)) (candidates no_scale sample_canvas)"
    using strategies_in_order_until_first_success
      [OF wf, of no_code no_scale "\<lparr>heap = [], calls = []\<rparr>"] f2
    by auto
  show ?thesis
    using wf c a b by blast
qed

section \<open>Verification: the matcher agrees with the language of an expression\<close>

lemma nullable_lang: "nullable r \<longleftrightarrow> [] \<in> lang r"
proof (induction r)
  case (Star r)
  have "concat [] \<in> lang (Star r)"
    by (simp del: concat.simps) (rule exI [of _ "[]"], simp)
  then show ?case by simp
qed auto

lemma lang_seq: "lang (seq r s) = lang (Seq r s)"
  by (cases r) auto

lemma lang_alt: "lang (alt r s) = lang (Alt r s)"
  by (cases r; cases s) auto

lemma star_cons:
  "c # w \<in> lang (Star r) \<longleftrightarrow> (\<exists>u v. c # u \<in> lang r \<and> v \<in> lang (Star r) \<and> w = u @ v)"
proof
  assume "c # w \<in> lang (Star r)"
  then obtain us where us: "c # w = concat us" "set us \<subseteq> lang r"
    by auto
  then show "\<exists>u v. c # u \<in> lang r \<and> v \<in> lang (Star r) \<and> w = u @ v"
  proof (induction us)
    case Nil
    then show ?case by simp
  next
    case (Cons x us)
    show ?case
    proof (cases x)
      case Nil
      then show ?thesis
        using Cons by simp
    next
      case (Cons d u)
      then have "d = c" "w = u @ concat us"
        using Cons.prems(1) by simp_all
      moreover have "concat us \<in> lang (Star r)"
        using Cons.prems(2) by auto
      moreover have "d # u \<in> lang r"
        using Cons.prems(2) Cons by simp
      ultimately show ?thesis
        by blast
    qed
  qed
next
  assume "\<exists>u v. c # u \<in> lang r \<and> v \<in> lang (Star r) \<and> w = u @ v"
  then obtain u us where "c # u \<in> lang r" "set us \<subseteq> lang r" "w = u @ concat us"
    by auto
  then have "c # w = concat ((c # u) # us) \<and> set ((c # u) # us) \<subseteq> lang r"
    by simp
  then show "c # w \<in> lang (Star r)"
    unfolding lang.simps by blast
qed

lemma lang_deriv: "w \<in> lang (deriv c r) \<longleftrightarrow> c # w \<in> lang r"
proof (induction r arbitrary: w)
  case (Seq r s)
  have "c # w \<in> lang (Seq r s) \<longleftrightarrow>
          (\<exists>u v. c # u \<in> lang r \<and> v \<in> lang s \<and> w = u @ v) \<or> ([] \<in> lang r \<and> c # w \<in> lang s)"
  proof
    assume "c # w \<in> lang (Seq r s)"
    then obtain u v where uv: "c # w = u @ v" "u \<in> lang r" "v \<in> lang s"
      by auto
    show "(\<exists>u v. c # u \<in> lang r \<and> v \<in> lang s \<and> w = u @ v) \<or>
          ([] \<in> lang r \<and> c # w \<in> lang s)"
    proof (cases u)
      case Nil
      then show ?thesis using uv by simp
    next
      case (Cons d u')
      then have "c # u' \<in> lang r \<and> v \<in> lang s \<and> w = u' @ v"
        using uv by simp
      then show ?thesis by blast
    qed
  next
    assume a: "(\<exists>u v. c # u \<in> lang r \<and> v \<in> lang s \<and> w = u @ v) \<or>
          ([] \<in> lang r \<and> c # w \<in> lang s)"
    show "c # w \<in> lang (Seq r s)"
    proof (rule disjE [OF a])
      assume "\<exists>u v. c # u \<in> lang r \<and> v \<in> lang s \<and> w = u @ v"
      then obtain u v where "c # u \<in> lang r" "v \<in> lang s" "w = u @ v"
        by blast
      then have "c # w = (c # u) @ v \<and> c # u \<in> lang r \<and> v \<in> lang s"
        by simp
      then show ?thesis
        unfolding lang.simps by blast
    next
      assume "[] \<in> lang r \<and> c # w \<in> lang s"
      then have "c # w = [] @ (c # w) \<and> [] \<in> lang r \<and> c # w \<in> lang s"
        by simp
      then show ?thesis
        unfolding lang.simps by blast
    qed
  qed
  moreover have "w \<in> lang (Seq (deriv c r) s) \<longleftrightarrow>
          (\<exists>u v. c # u \<in> lang r \<and> v \<in> lang s \<and> w = u @ v)"
    using Seq.IH(1) by auto
  ultimately show ?case
    using Seq.IH(2) by (auto simp: lang_seq lang_alt nullable_lang simp del: lang.simps(4))
next
  case (Star r)
  then show ?case
    by (auto simp: lang_seq star_cons simp del: lang.simps(6))
qed (auto simp: lang_alt)

lemma full_match_lang: "full_match r s \<longleftrightarrow> s \<in> lang r"
  by (induction s arbitrary: r) (simp_all add: nullable_lang lang_deriv)

lemma prefix_match_lang: "prefix_match r s \<longleftrightarrow> (\<exists>p q. s = p @ q \<and> p \<in> lang r)"
proof (induction s arbitrary: r)
  case Nil
  then show ?case by (simp add: nullable_lang)
next
  case (Cons c s)
  have "(\<exists>p q. c # s = p @ q \<and> p \<in> lang r) \<longleftrightarrow>
          [] \<in> lang r \<or> (\<exists>p q. s = p @ q \<and> c # p \<in> lang r)"
    by (auto simp: Cons_eq_append_conv)
  then show ?case
    using Cons by (simp add: nullable_lang lang_deriv)
qed

end
